theory Spec2Isabelle
  imports Main
begin

section \<open>Text\<close>

text \<open>
  A Python \<open>str\<close> is modelled as a list of characters; the model covers the code
  points 0..255. \<open>is_space\<close> lists the code points in that range for which
  \<open>str.isspace\<close> holds; \<open>str.strip()\<close> and the regular expression class
  \<open>\s\<close> both use exactly this set.
\<close>

definition is_space :: "char \<Rightarrow> bool" where
  "is_space c \<longleftrightarrow>
     c \<in> set [CHR 0x09, CHR 0x0A, CHR 0x0B, CHR 0x0C, CHR 0x0D,
               CHR 0x1C, CHR 0x1D, CHR 0x1E, CHR 0x1F, CHR 0x20, CHR 0x85, CHR 0xA0]"

text \<open>\<open>s.strip()\<close>: leading and trailing whitespace removed.\<close>

definition strip :: "string \<Rightarrow> string" where
  "strip s = rev (dropWhile is_space (rev (dropWhile is_space s)))"

text \<open>\<open>s.split(sep)\<close> for a one-character separator: never the empty list.\<close>

fun split_str :: "char \<Rightarrow> string \<Rightarrow> string list" where
  "split_str sep [] = [[]]"
| "split_str sep (c # cs) =
     (if c = sep then [] # split_str sep cs
      else (case split_str sep cs of
              [] \<Rightarrow> [[c]]
            | p # ps \<Rightarrow> (c # p) # ps))"

text \<open>\<open>sep.join(parts)\<close> for a one-character separator.\<close>

fun join_str :: "char \<Rightarrow> string list \<Rightarrow> string" where
  "join_str sep [] = []"
| "join_str sep [p] = p"
| "join_str sep (p # q # ps) = p @ sep # join_str sep (q # ps)"

text \<open>
  Python list indexing \<open>xs[i]\<close> on a list of length \<open>n\<close>: a negative index counts
  from the end, anything outside \<open>-n .. n-1\<close> raises IndexError (here \<open>None\<close>).
\<close>

definition py_index :: "int \<Rightarrow> nat \<Rightarrow> nat option" where
  "py_index i n =
     (if 0 \<le> i \<and> i < int n then Some (nat i)
      else if - int n \<le> i \<and> i < 0 then Some (nat (int n + i))
      else None)"

text \<open>
  Iterating over a file opened in text mode with universal newlines: \<open>\r\n\<close> and a lone
  \<open>\r\<close> arrive as \<open>\n\<close>; every line but possibly the last ends with \<open>\n\<close>.
\<close>

definition NL :: char where "NL = CHR 0x0A"
definition CR :: char where "CR = CHR 0x0D"

fun readlines :: "string \<Rightarrow> string list" where
  "readlines [] = []"
| "readlines [c] = [[if c = CR then NL else c]]"
| "readlines (c # d # cs) =
     (if c = NL then [NL] # readlines (d # cs)
      else if c = CR then
        (if d = NL then [NL] # readlines cs else [NL] # readlines (d # cs))
      else (case readlines (d # cs) of
              [] \<Rightarrow> [[c]]
            | l # ls \<Rightarrow> (c # l) # ls))"

section \<open>Exceptions, log records, the random generator\<close>

datatype py_exception =
  ValueError | OverflowError | RegexError | IndexError | FileNotFoundError | OSError

datatype log_level = INFO | WARNING | ERROR

text \<open>
  One constructor per logging call of the program, carrying the value interpolated into
  its message.
\<close>

datatype log_event =
    ParseError string              \<comment> \<open>"Error parsing date: {date_str}. Error: {e}"\<close>
  | UnexpectedError py_exception   \<comment> \<open>"An unexpected error occurred: {e}"\<close>
  | InvalidInterval string         \<comment> \<open>"Invalid bucket interval: {bucket_interval}"\<close>
  | NotEnoughColumns string        \<comment> \<open>"Line does not have enough columns: {line}. Skipping."\<close>
  | FailedToMask string            \<comment> \<open>"Failed to mask date in line: {line}. Writing original line to output."\<close>
  | InputNotFound string           \<comment> \<open>"Input file not found: {input_file}"\<close>
  | MaskingComplete                \<comment> \<open>"Data masking complete."\<close>

fun level :: "log_event \<Rightarrow> log_level" where
  "level (ParseError _) = ERROR"
| "level (UnexpectedError _) = ERROR"
| "level (InvalidInterval _) = ERROR"
| "level (NotEnoughColumns _) = WARNING"
| "level (FailedToMask _) = WARNING"
| "level (InputNotFound _) = ERROR"
| "level MaskingComplete = INFO"

text \<open>
  The process-wide generator is an opaque stream of raw draws. \<open>random.randint(a, b)\<close>
  raises ValueError on an empty range and otherwise consumes one draw and returns an
  integer of the closed interval \<open>a .. b\<close>.
\<close>

type_synonym rng = "nat \<Rightarrow> nat"

definition randint :: "int \<Rightarrow> int \<Rightarrow> rng \<Rightarrow> (py_exception + int) \<times> rng" where
  "randint a b g =
     (if b < a then (Inl ValueError, g)
      else (Inr (a + int (g 0 mod nat (b - a + 1))), (\<lambda>i. g (Suc i))))"

section \<open>The proleptic Gregorian calendar of \<open>datetime\<close>\<close>

definition is_leap :: "int \<Rightarrow> bool" where
  "is_leap y \<longleftrightarrow> y mod 4 = 0 \<and> (y mod 100 \<noteq> 0 \<or> y mod 400 = 0)"

definition days_before_year :: "int \<Rightarrow> int" where
  "days_before_year y' = (let y = y' - 1 in y * 365 + y div 4 - y div 100 + y div 400)"

definition DAYS_IN_MONTH :: "int \<Rightarrow> int" where
  "DAYS_IN_MONTH m = [-1, 31, 28, 31, 30, 31, 30, 31, 31, 30, 31, 30, 31] ! nat m"

definition DAYS_BEFORE_MONTH :: "int \<Rightarrow> int" where
  "DAYS_BEFORE_MONTH m = [-1, 0, 31, 59, 90, 120, 151, 181, 212, 243, 273, 304, 334] ! nat m"

definition days_in_month :: "int \<Rightarrow> int \<Rightarrow> int" where
  "days_in_month y m = (if m = 2 \<and> is_leap y then 29 else DAYS_IN_MONTH m)"

definition days_before_month :: "int \<Rightarrow> int \<Rightarrow> int" where
  "days_before_month y m = DAYS_BEFORE_MONTH m + (if m > 2 \<and> is_leap y then 1 else 0)"

definition ymd2ord :: "int \<Rightarrow> int \<Rightarrow> int \<Rightarrow> int" where
  "ymd2ord y m d = days_before_year y + days_before_month y m + d"

definition DI400Y :: int where "DI400Y = 146097"
definition DI100Y :: int where "DI100Y = 36524"
definition DI4Y :: int where "DI4Y = 1461"
definition MAXORDINAL :: int where "MAXORDINAL = 3652059"

definition ord2ymd :: "int \<Rightarrow> int \<times> int \<times> int" where
  "ord2ymd n0 =
     (let n = n0 - 1;
          n400 = n div DI400Y; n = n mod DI400Y;
          y = n400 * 400 + 1;
          n100 = n div DI100Y; n = n mod DI100Y;
          n4 = n div DI4Y; n = n mod DI4Y;
          n1 = n div 365; n = n mod 365;
          y = y + n100 * 100 + n4 * 4 + n1
      in if n1 = 4 \<or> n100 = 4 then (y - 1, 12, 31)
         else
           let leapyear = (n1 = 3 \<and> (n4 \<noteq> 24 \<or> n100 = 3));
               m = (n + 50) div 32;
               preceding = DAYS_BEFORE_MONTH m + (if m > 2 \<and> leapyear then 1 else 0)
           in if preceding > n
              then let m' = m - 1;
                       preceding' = preceding - (DAYS_IN_MONTH m' + (if m' = 2 \<and> leapyear then 1 else 0))
                   in (y, m', n - preceding' + 1)
              else (y, m, n - preceding + 1))"

text \<open>
  The last step of \<open>ord2ymd\<close> on its own: month and day from the offset \<open>n\<close> in the
  year and the leap flag, by the estimate \<open>(n + 50) >> 5\<close> that is exact or one too large.
\<close>

definition month_day :: "int \<Rightarrow> bool \<Rightarrow> int \<times> int" where
  "month_day r L =
     (let m = (r + 50) div 32;
          preceding = DAYS_BEFORE_MONTH m + (if m > 2 \<and> L then 1 else 0)
      in if preceding > r
         then let m' = m - 1;
                  preceding' = preceding - (DAYS_IN_MONTH m' + (if m' = 2 \<and> L then 1 else 0))
              in (m', r - preceding' + 1)
         else (m, r - preceding + 1))"

record datetime =
  year :: int
  month :: int
  day :: int
  hour :: int
  minute :: int
  second :: int

text \<open>The range checks of the \<open>datetime\<close> constructor; a violation raises ValueError.\<close>

definition valid_datetime :: "datetime \<Rightarrow> bool" where
  "valid_datetime dt \<longleftrightarrow>
     1 \<le> year dt \<and> year dt \<le> 9999 \<and> 1 \<le> month dt \<and> month dt \<le> 12 \<and>
     1 \<le> day dt \<and> day dt \<le> days_in_month (year dt) (month dt) \<and>
     0 \<le> hour dt \<and> hour dt \<le> 23 \<and> 0 \<le> minute dt \<and> minute dt \<le> 59 \<and>
     0 \<le> second dt \<and> second dt \<le> 59"

definition mk_datetime :: "int \<Rightarrow> int \<Rightarrow> int \<Rightarrow> int \<Rightarrow> int \<Rightarrow> int \<Rightarrow> py_exception + datetime" where
  "mk_datetime y m d h mi s =
     (let dt = \<lparr>year = y, month = m, day = d, hour = h, minute = mi, second = s\<rparr>
      in if valid_datetime dt then Inr dt else Inl ValueError)"

definition toordinal :: "datetime \<Rightarrow> int" where
  "toordinal dt = ymd2ord (year dt) (month dt) (day dt)"

text \<open>\<open>dt.weekday()\<close>: Monday is 0, Sunday is 6.\<close>

definition weekday :: "datetime \<Rightarrow> int" where
  "weekday dt = (toordinal dt + 6) mod 7"

text \<open>
  \<open>dt + timedelta(days=n)\<close>. Building the timedelta raises OverflowError beyond
  999999999 days; the sum is taken on (ordinal, seconds of the day) and raises
  OverflowError outside the ordinals \<open>1 .. MAXORDINAL\<close>.
\<close>

definition add_days :: "datetime \<Rightarrow> int \<Rightarrow> py_exception + datetime" where
  "add_days dt n =
     (if \<bar>n\<bar> > 999999999 then Inl OverflowError
      else
        let days = toordinal dt + n;
            seconds = hour dt * 3600 + minute dt * 60 + second dt;
            h = seconds div 3600; rem = seconds mod 3600;
            mi = rem div 60; s = rem mod 60
        in if 0 < days \<and> days \<le> MAXORDINAL
           then (case ord2ymd days of (y, m, d) \<Rightarrow>
                   Inr \<lparr>year = y, month = m, day = d, hour = h, minute = mi, second = s\<rparr>)
           else Inl OverflowError)"

text \<open>\<open>dt.replace(day=d)\<close> builds a new datetime, with the constructor's checks.\<close>

definition replace_day :: "datetime \<Rightarrow> int \<Rightarrow> py_exception + datetime" where
  "replace_day dt d = mk_datetime (year dt) (month dt) d (hour dt) (minute dt) (second dt)"

text \<open>
  \<open>datetime.combine(dt.date(), datetime.time(h, mi, s))\<close>: the time constructor checks
  its ranges.
\<close>

definition combine_time :: "datetime \<Rightarrow> int \<Rightarrow> int \<Rightarrow> int \<Rightarrow> py_exception + datetime" where
  "combine_time dt h mi s =
     (if 0 \<le> h \<and> h \<le> 23 \<and> 0 \<le> mi \<and> mi \<le> 59 \<and> 0 \<le> s \<and> s \<le> 59
      then Inr (dt\<lparr>hour := h, minute := mi, second := s\<rparr>)
      else Inl ValueError)"

text \<open>Comparison of datetimes is lexicographic on the fields.\<close>

definition dt_key :: "datetime \<Rightarrow> int list" where
  "dt_key dt = [year dt, month dt, day dt, hour dt, minute dt, second dt]"

fun lex_le :: "int list \<Rightarrow> int list \<Rightarrow> bool" where
  "lex_le [] ys = True"
| "lex_le (x # xs) [] = False"
| "lex_le (x # xs) (y # ys) = (x < y \<or> (x = y \<and> lex_le xs ys))"

definition dt_le :: "datetime \<Rightarrow> datetime \<Rightarrow> bool" where
  "dt_le a b = lex_le (dt_key a) (dt_key b)"

section \<open>The date codec: \<open>strptime\<close> and \<open>strftime\<close>\<close>

text \<open>
  The model covers the numeric directives \<open>%Y %m %d %H %M %S\<close>, the escape \<open>%%\<close>,
  literal text and whitespace. The other directives that Python knows
  (\<open>%y %j %f %b %a %p %z\<close> and so on, several of them locale dependent) are outside the
  model: it answers them like an unknown directive. \<open>strptime\<close> follows
  \<open>_strptime.py\<close>: the format becomes a regular expression (a whitespace run becomes
  \<open>\s+\<close>, a directive a named group of ordered alternatives), compiled with IGNORECASE
  and matched with \<open>re.match\<close>; the first match in backtracking order is taken and has
  to end at the end of the text.
\<close>

datatype directive = DirY | Dirm | Dird | DirH | DirM | DirS

datatype token = Dir directive | Lit char | Ws string

definition directive_of :: "char \<Rightarrow> token option" where
  "directive_of d =
     (if d = CHR ''Y'' then Some (Dir DirY)
      else if d = CHR ''m'' then Some (Dir Dirm)
      else if d = CHR ''d'' then Some (Dir Dird)
      else if d = CHR ''H'' then Some (Dir DirH)
      else if d = CHR ''M'' then Some (Dir DirM)
      else if d = CHR ''S'' then Some (Dir DirS)
      else if d = CHR ''%'' then Some (Lit (CHR ''%''))
      else None)"

text \<open>
  \<open>TimeRE.pattern\<close>: \<open>None\<close> is the ValueError for a bad directive or a stray \<open>%\<close>.
  A format holding the NUL character is rejected here as well: the regular expression
  would accept it, but \<open>strftime\<close> raises ValueError on it afterwards, so that the
  masking functions end in the same handler.
\<close>

fun tokenize :: "string \<Rightarrow> token list option" where
  "tokenize [] = Some []"
| "tokenize [c] =
     (if c = CHR ''%'' \<or> c = CHR 0x00 then None
      else Some [if is_space c then Ws [c] else Lit c])"
| "tokenize (c # d # cs) =
     (if c = CHR 0x00 then None
      else if c = CHR ''%'' then
        (case directive_of d of
           None \<Rightarrow> None
         | Some t \<Rightarrow> map_option (Cons t) (tokenize cs))
      else if is_space c then
        (case tokenize (d # cs) of
           None \<Rightarrow> None
         | Some [] \<Rightarrow> Some [Ws [c]]
         | Some (Ws w # ts) \<Rightarrow> Some (Ws (c # w) # ts)
         | Some (t # ts) \<Rightarrow> Some (Ws [c] # t # ts))
      else map_option (Cons (Lit c)) (tokenize (d # cs)))"

fun directives :: "token list \<Rightarrow> directive list" where
  "directives [] = []"
| "directives (Dir d # ts) = d # directives ts"
| "directives (t # ts) = directives ts"

definition digits :: string where
  "digits = ''0123456789''"

definition nonzero :: string where
  "nonzero = ''123456789''"

text \<open>
  The group of a directive: its alternatives in the order of the regular expression,
  each a sequence of character classes.
\<close>

fun alternatives :: "directive \<Rightarrow> string list list" where
  "alternatives Dird = [[''3'', ''01''], [''12'', digits], [''0'', nonzero], [nonzero], ['' '', nonzero]]"
| "alternatives DirH = [[''2'', ''0123''], [''01'', digits], [digits]]"
| "alternatives Dirm = [[''1'', ''012''], [''0'', nonzero], [nonzero]]"
| "alternatives DirM = [[''012345'', digits], [digits]]"
| "alternatives DirS = [[''6'', ''01''], [''012345'', digits], [digits]]"
| "alternatives DirY = [[digits, digits, digits, digits]]"

fun match_classes :: "string list \<Rightarrow> string \<Rightarrow> (string \<times> string) option" where
  "match_classes [] s = Some ([], s)"
| "match_classes (cl # cls) [] = None"
| "match_classes (cl # cls) (c # cs) =
     (if c \<in> set cl
      then (case match_classes cls cs of
              None \<Rightarrow> None
            | Some (m, r) \<Rightarrow> Some (c # m, r))
      else None)"

definition match_directive :: "directive \<Rightarrow> string \<Rightarrow> (string \<times> string) list" where
  "match_directive d s = List.map_filter (\<lambda>alt. match_classes alt s) (alternatives d)"

text \<open>Simple lower-casing, as IGNORECASE compares characters (code points 0..255).\<close>

definition lower :: "char \<Rightarrow> char" where
  "lower c =
     (let n = (of_char c :: nat)
      in if (65 \<le> n \<and> n \<le> 90) \<or> (192 \<le> n \<and> n \<le> 222 \<and> n \<noteq> 215)
         then char_of (n + 32) else c)"

text \<open>
  All the ways the expression can match a prefix of the text, in backtracking order,
  each with the groups it bound and the text left over.
\<close>

fun match_tokens ::
  "token list \<Rightarrow> string \<Rightarrow> (directive \<times> string) list \<Rightarrow> ((directive \<times> string) list \<times> string) list"
where
  "match_tokens [] s bs = [(bs, s)]"
| "match_tokens (Lit c # ts) s bs =
     (case s of
        [] \<Rightarrow> []
      | x # xs \<Rightarrow> if lower x = lower c then match_tokens ts xs bs else [])"
| "match_tokens (Ws w # ts) s bs =
     concat (map (\<lambda>k. match_tokens ts (drop k s) bs)
                 (rev [1 ..< Suc (length (takeWhile is_space s))]))"
| "match_tokens (Dir d # ts) s bs =
     concat (map (\<lambda>(m, r). match_tokens ts r ((d, m) # bs)) (match_directive d s))"

definition digit_val :: "char \<Rightarrow> int" where
  "digit_val c = int (length (takeWhile (\<lambda>x. x \<noteq> c) digits))"

text \<open>\<open>int(text)\<close> on a matched group: surrounding whitespace is ignored.\<close>

definition int_of_str :: "string \<Rightarrow> int" where
  "int_of_str s = foldl (\<lambda>acc c. 10 * acc + digit_val c) 0 (strip s)"

definition field :: "(directive \<times> string) list \<Rightarrow> directive \<Rightarrow> int \<Rightarrow> int" where
  "field bs d dflt = (case map_of bs d of None \<Rightarrow> dflt | Some m \<Rightarrow> int_of_str m)"

text \<open>
  \<open>datetime.strptime(date_str, date_format)\<close>. A directive used twice makes the
  expression fail to compile (a group name is redefined). Without \<open>%Y\<close> the year is
  1900, the other fields default to 1 and 0; the constructor then checks the ranges.
\<close>

definition strptime :: "string \<Rightarrow> string \<Rightarrow> py_exception + datetime" where
  "strptime date_str date_format =
     (case tokenize date_format of
        None \<Rightarrow> Inl ValueError
      | Some toks \<Rightarrow>
          if \<not> distinct (directives toks) then Inl RegexError
          else (case match_tokens toks date_str [] of
                  [] \<Rightarrow> Inl ValueError
                | (bs, rest) # _ \<Rightarrow>
                    if rest \<noteq> [] then Inl ValueError
                    else mk_datetime (field bs DirY 1900) (field bs Dirm 1) (field bs Dird 1)
                           (field bs DirH 0) (field bs DirM 0) (field bs DirS 0)))"

definition digit_char :: "int \<Rightarrow> char" where
  "digit_char n = digits ! nat n"

definition pad2 :: "int \<Rightarrow> string" where
  "pad2 n = [digit_char (n div 10), digit_char (n mod 10)]"

definition pad4 :: "int \<Rightarrow> string" where
  "pad4 n = [digit_char (n div 1000), digit_char (n div 100 mod 10),
             digit_char (n div 10 mod 10), digit_char (n mod 10)]"

text \<open>
  \<open>dt.strftime(date_format)\<close>, with the zero padding the library documents. (The C
  library of some platforms prints a year below 1000 without padding; the theorems that
  read a formatted year say where they need \<open>1000 \<le> year\<close>.) A \<open>%\<close> that starts no
  modelled directive is copied; the program never gets there, since \<open>strptime\<close> has
  rejected such a format before.
\<close>

fun strftime :: "datetime \<Rightarrow> string \<Rightarrow> string" where
  "strftime dt [] = []"
| "strftime dt [c] = [c]"
| "strftime dt (c # d # cs) =
     (if c = CHR ''%'' then
        (if d = CHR ''Y'' then pad4 (year dt) @ strftime dt cs
         else if d = CHR ''m'' then pad2 (month dt) @ strftime dt cs
         else if d = CHR ''d'' then pad2 (day dt) @ strftime dt cs
         else if d = CHR ''H'' then pad2 (hour dt) @ strftime dt cs
         else if d = CHR ''M'' then pad2 (minute dt) @ strftime dt cs
         else if d = CHR ''S'' then pad2 (second dt) @ strftime dt cs
         else if d = CHR ''%'' then CHR ''%'' # strftime dt cs
         else c # d # strftime dt cs)
      else c # strftime dt (d # cs))"

text \<open>
  The text that \<open>strftime\<close> produces for one token of a format: the rendering of a
  format is the concatenation of the renderings of its tokens.
\<close>

fun render :: "datetime \<Rightarrow> token \<Rightarrow> string" where
  "render dt (Dir DirY) = pad4 (year dt)"
| "render dt (Dir Dirm) = pad2 (month dt)"
| "render dt (Dir Dird) = pad2 (day dt)"
| "render dt (Dir DirH) = pad2 (hour dt)"
| "render dt (Dir DirM) = pad2 (minute dt)"
| "render dt (Dir DirS) = pad2 (second dt)"
| "render dt (Lit c) = [c]"
| "render dt (Ws w) = w"

section \<open>The masking strategies\<close>

text \<open>
  Each strategy returns the masked text, or \<open>None\<close> after logging an error. The two
  \<open>except\<close> clauses are one handler: ValueError is reported as a parse error, any
  other exception as unexpected.
\<close>

definition except_handler :: "string \<Rightarrow> py_exception \<Rightarrow> string option \<times> log_event list" where
  "except_handler date_str e =
     (None, [if e = ValueError then ParseError date_str else UnexpectedError e])"

definition shift_date ::
  "string \<Rightarrow> string \<Rightarrow> int \<Rightarrow> rng \<Rightarrow> (string option \<times> log_event list) \<times> rng"
where
  "shift_date date_str date_format shift_days g =
     (case strptime date_str date_format of
        Inl e \<Rightarrow> (except_handler date_str e, g)
      | Inr date_object \<Rightarrow>
          (case randint (- shift_days) shift_days g of
             (Inl e, g') \<Rightarrow> (except_handler date_str e, g')
           | (Inr random_shift, g') \<Rightarrow>
               (case add_days date_object random_shift of
                  Inl e \<Rightarrow> (except_handler date_str e, g')
                | Inr new_date \<Rightarrow> ((Some (strftime new_date date_format), []), g'))))"

definition bucket_date :: "string \<Rightarrow> string \<Rightarrow> string \<Rightarrow> string option \<times> log_event list" where
  "bucket_date date_str date_format bucket_interval =
     (case strptime date_str date_format of
        Inl e \<Rightarrow> except_handler date_str e
      | Inr date_object \<Rightarrow>
          if bucket_interval = ''day'' then (Some (strftime date_object date_format), [])
          else if bucket_interval = ''week'' then
            (case add_days date_object (- weekday date_object) of
               Inl e \<Rightarrow> except_handler date_str e
             | Inr start_of_week \<Rightarrow> (Some (strftime start_of_week date_format), []))
          else if bucket_interval = ''month'' then
            (case replace_day date_object 1 of
               Inl e \<Rightarrow> except_handler date_str e
             | Inr first_day \<Rightarrow> (Some (strftime first_day date_format), []))
          else (None, [InvalidInterval bucket_interval]))"

definition randomize_time ::
  "string \<Rightarrow> string \<Rightarrow> rng \<Rightarrow> (string option \<times> log_event list) \<times> rng"
where
  "randomize_time date_str date_format g =
     (case strptime date_str date_format of
        Inl e \<Rightarrow> (except_handler date_str e, g)
      | Inr date_object \<Rightarrow>
          (case randint 0 23 g of
             (Inl e, g1) \<Rightarrow> (except_handler date_str e, g1)
           | (Inr h, g1) \<Rightarrow>
               (case randint 0 59 g1 of
                  (Inl e, g2) \<Rightarrow> (except_handler date_str e, g2)
                | (Inr mi, g2) \<Rightarrow>
                    (case randint 0 59 g2 of
                       (Inl e, g3) \<Rightarrow> (except_handler date_str e, g3)
                     | (Inr s, g3) \<Rightarrow>
                         (case combine_time date_object h mi s of
                            Inl e \<Rightarrow> (except_handler date_str e, g3)
                          | Inr new_datetime \<Rightarrow>
                              ((Some (strftime new_datetime date_format), []), g3))))))"

section \<open>The line processor\<close>

text \<open>Truth value of an optional string: \<open>None\<close> and the empty string are false.\<close>

fun truthy :: "string option \<Rightarrow> bool" where
  "truthy None = False"
| "truthy (Some s) = (s \<noteq> [])"

text \<open>
  The strategy chosen for one field (the \<open>if/elif/else\<close> chain of \<open>process_data\<close>).
\<close>

definition mask_field ::
  "string \<Rightarrow> string \<Rightarrow> int \<Rightarrow> string option \<Rightarrow> bool \<Rightarrow> rng \<Rightarrow> (string option \<times> log_event list) \<times> rng"
where
  "mask_field date_str date_format shift_days bucket_interval randomize_time_flag g =
     (if shift_days > 0 then shift_date date_str date_format shift_days g
      else if truthy bucket_interval then (bucket_date date_str date_format (the bucket_interval), g)
      else if randomize_time_flag then randomize_time date_str date_format g
      else ((Some date_str, []), g))"

text \<open>
  The body of the loop for one line: what is written to the output (or the exception that
  leaves the loop), the log records, the generator afterwards.
\<close>

definition process_line ::
  "string \<Rightarrow> int \<Rightarrow> string \<Rightarrow> int \<Rightarrow> string option \<Rightarrow> bool \<Rightarrow> rng \<Rightarrow> ((py_exception + string) \<times> log_event list) \<times> rng"
where
  "process_line line0 column_index date_format shift_days bucket_interval randomize_time_flag g =
     (let line = strip line0 in
      if line = [] then ((Inr [NL], []), g)
      else
        let parts = split_str (CHR '','') line in
        if int (length parts) \<le> column_index
        then ((Inr (line @ [NL]), [NotEnoughColumns line]), g)
        else
          (case py_index column_index (length parts) of
             None \<Rightarrow> ((Inl IndexError, []), g)
           | Some i \<Rightarrow>
               let date_str = strip (parts ! i) in
               (case mask_field date_str date_format shift_days bucket_interval randomize_time_flag g of
                  ((None, logs), g') \<Rightarrow> ((Inr (line @ [NL]), logs @ [FailedToMask line]), g')
                | ((Some masked_date, logs), g') \<Rightarrow>
                    ((Inr (join_str (CHR '','') (parts[i := masked_date]) @ [NL]), logs), g'))))"

text \<open>
  The loop over the lines: the text written so far, the log, and the exception that ended
  the loop, if one did.
\<close>

fun process_lines ::
  "string list \<Rightarrow> int \<Rightarrow> string \<Rightarrow> int \<Rightarrow> string option \<Rightarrow> bool \<Rightarrow> rng \<Rightarrow> (py_exception option \<times> string \<times> log_event list) \<times> rng"
where
  "process_lines [] column_index date_format shift_days bucket_interval randomize_time_flag g =
     ((None, [], []), g)"
| "process_lines (l # ls) column_index date_format shift_days bucket_interval randomize_time_flag g =
     (case process_line l column_index date_format shift_days bucket_interval randomize_time_flag g of
        ((Inl e, logs), g') \<Rightarrow> ((Some e, [], logs), g')
      | ((Inr written, logs), g') \<Rightarrow>
          (case process_lines ls column_index date_format shift_days bucket_interval randomize_time_flag g' of
             ((r, out, logs'), g'') \<Rightarrow> ((r, written @ out, logs @ logs'), g'')))"

section \<open>Files and the process\<close>

datatype event =
    OpenRead string
  | OpenWrite string
  | Log log_event
  | Stderr string
  | PrintHelp

text \<open>
  The world of the process: the files by path, the paths that can be opened for writing,
  the generator, and the trace of what the process did.
\<close>

record world =
  files :: "string \<rightharpoonup> string"
  writable :: "string \<Rightarrow> bool"
  gen :: rng
  trace :: "event list"

definition emit :: "event list \<Rightarrow> world \<Rightarrow> world" where
  "emit es w = w\<lparr>trace := trace w @ es\<rparr>"

text \<open>
  \<open>process_data\<close>: the input is opened first (a missing file is FileNotFoundError), then
  the output, which truncates it; an exception inside the \<open>with\<close> block closes both
  files, keeping what was written, and returns 1.
\<close>

definition process_data ::
  "string \<Rightarrow> string \<Rightarrow> int \<Rightarrow> string \<Rightarrow> int \<Rightarrow> string option \<Rightarrow> bool \<Rightarrow> world \<Rightarrow> int \<times> world"
where
  "process_data input_file output_file column_index date_format shift_days bucket_interval
      randomize_time_flag w =
     (case files w input_file of
        None \<Rightarrow> (1, emit [OpenRead input_file, Log (InputNotFound input_file)] w)
      | Some content0 \<Rightarrow>
          if \<not> writable w output_file
          then (1, emit [OpenRead input_file, OpenWrite output_file, Log (UnexpectedError OSError)] w)
          else
            let content = (if input_file = output_file then [] else content0) in
            (case process_lines (readlines content) column_index date_format shift_days
                    bucket_interval randomize_time_flag (gen w) of
               ((r, out, logs), g') \<Rightarrow>
                 let w' = emit ([OpenRead input_file, OpenWrite output_file] @ map Log logs)
                            (w\<lparr>files := (files w)(output_file \<mapsto> out), gen := g'\<rparr>)
                 in (case r of
                       None \<Rightarrow> (0, w')
                     | Some e \<Rightarrow> (1, emit [Log (UnexpectedError e)] w'))))"

text \<open>The parsed command line (\<open>argparse.Namespace\<close>).\<close>

record args =
  arg_shift_days :: int
  arg_bucket_interval :: "string option"
  arg_input_file :: "string option"
  arg_output_file :: "string option"
  arg_date_format :: string
  arg_column_index :: int
  arg_randomize_time :: bool

text \<open>
  A statement either goes on or ends the process with a status.
  \<open>ArgumentParser.error(message)\<close> prints the usage and the message to standard error
  and ends the process with status 2 (\<open>self.exit(2, ...)\<close>); \<open>sys.exit(n)\<close> ends it
  with status \<open>n\<close>.
\<close>

datatype control = Exited int world | Continue world

fun then_do :: "control \<Rightarrow> (world \<Rightarrow> control) \<Rightarrow> control" where
  "then_do (Exited n w) f = Exited n w"
| "then_do (Continue w) f = f w"

definition parser_error :: "string \<Rightarrow> world \<Rightarrow> control" where
  "parser_error message w = Exited 2 (emit [Stderr message] w)"

definition sys_exit :: "int \<Rightarrow> world \<Rightarrow> control" where
  "sys_exit n w = Exited n w"

definition main :: "args \<Rightarrow> world \<Rightarrow> control" where
  "main a w =
     then_do
       (if \<not> (arg_shift_days a > 0 \<or> truthy (arg_bucket_interval a) \<or> arg_randomize_time a)
        then then_do
               (parser_error ''At least one of --shift_days, --bucket_interval, or --randomize_time must be specified.'' w)
               (sys_exit 1)
        else Continue w)
       (\<lambda>w. then_do
         (if arg_shift_days a > 0 \<and> truthy (arg_bucket_interval a)
          then then_do
                 (parser_error ''--shift_days and --bucket_interval are mutually exclusive. Choose only one.'' w)
                 (sys_exit 1)
          else Continue w)
         (\<lambda>w. if truthy (arg_input_file a) \<and> truthy (arg_output_file a)
              then (case process_data (the (arg_input_file a)) (the (arg_output_file a))
                           (arg_column_index a) (arg_date_format a) (arg_shift_days a)
                           (arg_bucket_interval a) (arg_randomize_time a) w of
                      (result, w') \<Rightarrow>
                        if result \<noteq> 0 then sys_exit 1 w'
                        else Continue (emit [Log MaskingComplete] w'))
              else then_do (Continue (emit [PrintHelp] w)) (sys_exit 1)))"

text \<open>The status of the process: falling off the end of \<open>main\<close> is status 0.\<close>

fun exit_status :: "control \<Rightarrow> int" where
  "exit_status (Exited n w) = n"
| "exit_status (Continue w) = 0"

fun final_world :: "control \<Rightarrow> world" where
  "final_world (Exited n w) = w"
| "final_world (Continue w) = w"


section \<open>Strings: strip, split and join\<close>

lemma last_dropWhile:
  "dropWhile P xs \<noteq> [] \<Longrightarrow> last (dropWhile P xs) = last xs"
  by (induction xs) (auto split: if_splits)

lemma strip_trimmed:
  "strip s = [] \<or> (\<not> is_space (hd (strip s)) \<and> \<not> is_space (last (strip s)))"
proof (cases "strip s = []")
  case True
  then show ?thesis by simp
next
  case False
  define t where "t = dropWhile is_space s"
  define u where "u = dropWhile is_space (rev t)"
  have s: "strip s = rev u" by (simp add: strip_def t_def u_def)
  with False have u: "u \<noteq> []" by simp
  then have "rev t \<noteq> []" by (auto simp add: u_def)
  then have t: "t \<noteq> []" by simp
  have "\<not> is_space (hd u)" using u unfolding u_def by (rule hd_dropWhile)
  then have l: "\<not> is_space (last (strip s))" using u by (simp add: s last_rev)
  have "last u = last (rev t)" using u unfolding u_def by (rule last_dropWhile)
  then have "last u = hd t" using t by (simp add: last_rev)
  moreover have "\<not> is_space (hd t)" using t unfolding t_def by (rule hd_dropWhile)
  ultimately have "\<not> is_space (hd (strip s))" using u by (simp add: s hd_rev)
  with l show ?thesis by simp
qed

lemma strip_fixed:
  assumes "s = [] \<or> (\<not> is_space (hd s) \<and> \<not> is_space (last s))"
  shows "strip s = s"
proof (cases "s = []")
  case True
  then show ?thesis by (simp add: strip_def)
next
  case False
  with assms have h: "\<not> is_space (hd s)" "\<not> is_space (last s)" by simp_all
  have a: "dropWhile is_space s = s" using h(1) by (simp add: dropWhile_eq_self_iff)
  have "\<not> is_space (hd (rev s))" using h(2) False by (simp add: hd_rev)
  then have "dropWhile is_space (rev s) = rev s" by (simp add: dropWhile_eq_self_iff)
  with a show ?thesis by (simp add: strip_def)
qed

lemma strip_strip: "strip (strip s) = strip s"
  by (rule strip_fixed) (rule strip_trimmed)

lemma strip_fixed_iff:
  "strip s = s \<longleftrightarrow> s = [] \<or> (\<not> is_space (hd s) \<and> \<not> is_space (last s))"
  using strip_fixed [of s] strip_trimmed [of s] by auto

lemma set_strip: "set (strip s) \<subseteq> set s"
proof -
  have "set (dropWhile is_space (rev (dropWhile is_space s))) \<subseteq> set (rev (dropWhile is_space s))"
    by (rule set_dropWhileD [THEN subsetI])
  also have "\<dots> \<subseteq> set s" using set_dropWhileD [of _ is_space s] by auto
  finally show ?thesis by (simp add: strip_def)
qed

lemma split_str_nonempty: "split_str sep s \<noteq> []"
  by (induction s) (auto split: list.splits)

lemma join_split: "join_str sep (split_str sep s) = s"
proof (induction s)
  case Nil
  show ?case by simp
next
  case (Cons c cs)
  show ?case
  proof (cases "c = sep")
    case True
    with Cons split_str_nonempty [of sep cs] show ?thesis
      by (cases "split_str sep cs") simp_all
  next
    case False
    with Cons split_str_nonempty [of sep cs] show ?thesis
      by (cases "split_str sep cs"; cases "tl (split_str sep cs)") auto
  qed
qed

lemma split_parts_no_sep: "p \<in> set (split_str sep s) \<Longrightarrow> sep \<notin> set p"
proof (induction s arbitrary: p)
  case Nil
  then show ?case by simp
next
  case (Cons c cs)
  then show ?case using split_str_nonempty [of sep cs]
    by (cases "split_str sep cs") (auto split: if_splits)
qed

lemma split_no_sep: "sep \<notin> set p \<Longrightarrow> split_str sep p = [p]"
  by (induction p) auto

lemma split_append_sep:
  "sep \<notin> set p \<Longrightarrow> split_str sep (p @ sep # s) = p # split_str sep s"
  by (induction p) auto

lemma split_join:
  assumes "ps \<noteq> []" "\<forall>p\<in>set ps. sep \<notin> set p"
  shows "split_str sep (join_str sep ps) = ps"
  using assms
proof (induction sep ps rule: join_str.induct)
  case (1 sep)
  then show ?case by simp
next
  case (2 sep p)
  then show ?case by (simp add: split_no_sep)
next
  case (3 sep p q ps)
  then show ?case by (simp add: split_append_sep)
qed

lemma join_update:
  assumes "i < length ps"
  shows "\<exists>pre post. join_str sep ps = pre @ (ps ! i) @ post \<and>
           (\<forall>m. join_str sep (ps[i := m]) = pre @ m @ post) \<and>
           (pre = [] \<or> last pre = sep) \<and> (post = [] \<or> hd post = sep)"
  using assms
proof (induction sep ps arbitrary: i rule: join_str.induct)
  case (1 sep)
  then show ?case by simp
next
  case (2 sep p)
  then have "i = 0" by simp
  then show ?case by (intro exI [of _ "[]"]) simp
next
  case (3 sep p q ps)
  show ?case
  proof (cases i)
    case 0
    have "join_str sep (p # q # ps) = [] @ ((p # q # ps) ! 0) @ (sep # join_str sep (q # ps))"
      by simp
    moreover have "\<forall>m. join_str sep ((p # q # ps)[0 := m]) = [] @ m @ (sep # join_str sep (q # ps))"
      by simp
    ultimately show ?thesis unfolding 0 by (intro exI conjI) (assumption, assumption, simp_all)
  next
    case (Suc k)
    with 3 have "k < length (q # ps)" by simp
    from 3(1) [OF this] obtain pre post where
      a: "join_str sep (q # ps) = pre @ ((q # ps) ! k) @ post"
         "\<forall>m. join_str sep ((q # ps)[k := m]) = pre @ m @ post"
         "pre = [] \<or> last pre = sep" "post = [] \<or> hd post = sep"
      by blast
    have "join_str sep (p # q # ps) = (p @ sep # pre) @ ((p # q # ps) ! i) @ post"
      using a(1) Suc by simp
    moreover have "\<forall>m. join_str sep ((p # q # ps)[i := m]) = (p @ sep # pre) @ m @ post"
    proof
      fix m
      have "join_str sep ((p # q # ps)[i := m]) = join_str sep (p # (q # ps)[k := m])"
        using Suc by simp
      also have "\<dots> = p @ sep # join_str sep ((q # ps)[k := m])"
        by (cases k) simp_all
      also have "\<dots> = (p @ sep # pre) @ m @ post" using a(2) by simp
      finally show "join_str sep ((p # q # ps)[i := m]) = (p @ sep # pre) @ m @ post" .
    qed
    moreover have "p @ sep # pre = [] \<or> last (p @ sep # pre) = sep" using a(3) by auto
    ultimately show ?thesis using a(4) by blast
  qed
qed
section \<open>The calendar: ordinals and dates\<close>


lemma int_div_bounds:
  fixes z k :: int
  assumes "0 < k"
  shows "k * (z div k) \<le> z" and "z < k * (z div k) + k"
proof -
  have "z = k * (z div k) + z mod k" by simp
  moreover have "0 \<le> z mod k" "z mod k < k" using assms by simp_all
  ultimately show "k * (z div k) \<le> z" and "z < k * (z div k) + k" by linarith+
qed

lemma days_before_year_cycle:
  fixes n400 n100 n4 n1 :: int
  assumes "0 \<le> n100" "n100 \<le> 3" "0 \<le> n4" "n4 \<le> 24" "0 \<le> n1" "n1 \<le> 3"
  shows "days_before_year (400 * n400 + 100 * n100 + 4 * n4 + n1 + 1)
           = 146097 * n400 + 36524 * n100 + 1461 * n4 + 365 * n1"
proof -
  let ?y = "400 * n400 + 100 * n100 + 4 * n4 + n1"
  have d400: "?y div 400 = n400"
    by (rule int_div_pos_eq [where r = "100 * n100 + 4 * n4 + n1"]) (use assms in \<open>simp_all add: algebra_simps\<close>)
  have d100: "?y div 100 = 4 * n400 + n100"
    by (rule int_div_pos_eq [where r = "4 * n4 + n1"]) (use assms in \<open>simp_all add: algebra_simps\<close>)
  have d4: "?y div 4 = 100 * n400 + 25 * n100 + n4"
    by (rule int_div_pos_eq [where r = "n1"]) (use assms in \<open>simp_all add: algebra_simps\<close>)
  show ?thesis
    unfolding days_before_year_def Let_def
    using d400 d100 d4 by simp
qed

lemma is_leap_cycle:
  fixes n400 n100 n4 n1 :: int
  assumes "0 \<le> n100" "n100 \<le> 3" "0 \<le> n4" "n4 \<le> 24" "0 \<le> n1" "n1 \<le> 3"
  shows "is_leap (400 * n400 + 100 * n100 + 4 * n4 + n1 + 1)
           \<longleftrightarrow> n1 = 3 \<and> (n4 \<noteq> 24 \<or> n100 = 3)"
proof -
  let ?y = "400 * n400 + 100 * n100 + 4 * n4 + n1 + 1"
  show ?thesis
  proof (cases "n1 = 3")
    case False
    have "?y mod 4 = n1 + 1"
      by (rule int_mod_pos_eq [where q = "100 * n400 + 25 * n100 + n4"]) (use assms False in \<open>simp_all add: algebra_simps\<close>)
    then show ?thesis using False assms by (simp add: is_leap_def)
  next
    case n1: True
    have m4: "?y mod 4 = 0"
      by (rule int_mod_pos_eq [where q = "100 * n400 + 25 * n100 + n4 + 1"]) (use assms n1 in \<open>simp_all add: algebra_simps\<close>)
    show ?thesis
    proof (cases "n4 = 24")
      case False
      have "?y mod 100 = 4 * n4 + 4"
        by (rule int_mod_pos_eq [where q = "4 * n400 + n100"]) (use assms n1 False in \<open>simp_all add: algebra_simps\<close>)
      then show ?thesis using False n1 m4 assms by (simp add: is_leap_def)
    next
      case n4: True
      have m100: "?y mod 100 = 0"
        by (rule int_mod_pos_eq [where q = "4 * n400 + n100 + 1"]) (use assms n1 n4 in \<open>simp_all add: algebra_simps\<close>)
      show ?thesis
      proof (cases "n100 = 3")
        case True
        have "?y mod 400 = 0"
          by (rule int_mod_pos_eq [where q = "n400 + 1"]) (use assms n1 n4 True in \<open>simp_all add: algebra_simps\<close>)
        then show ?thesis using True n1 n4 m4 m100 by (simp add: is_leap_def)
      next
        case False
        have "?y mod 400 = 100 * n100 + 100"
          by (rule int_mod_pos_eq [where q = "n400"]) (use assms n1 n4 False in \<open>simp_all add: algebra_simps\<close>)
        then show ?thesis using False n1 n4 m4 m100 assms by (simp add: is_leap_def)
      qed
    qed
  qed
qed


lemma month_day_sound:
  assumes "0 \<le> r" "r < 365" "month_day r L = (m, d)"
  shows "1 \<le> m \<and> m \<le> 12 \<and> 1 \<le> d \<and> d \<le> (if m = 2 \<and> L then 29 else DAYS_IN_MONTH m) \<and>
         DAYS_BEFORE_MONTH m + (if m > 2 \<and> L then 1 else 0) + d = r + 1"
proof -
  define m0 where "m0 = (r + 50) div 32"
  have b: "32 * m0 \<le> r + 50" "r + 50 < 32 * m0 + 32"
    unfolding m0_def by (simp_all add: int_div_bounds)
  then have "1 \<le> m0" "m0 \<le> 12" using assms(1,2) by linarith+
  then have "m0 = 1 \<or> m0 = 2 \<or> m0 = 3 \<or> m0 = 4 \<or> m0 = 5 \<or> m0 = 6 \<or>
    m0 = 7 \<or> m0 = 8 \<or> m0 = 9 \<or> m0 = 10 \<or> m0 = 11 \<or> m0 = 12"
    by arith
  then consider "m0 = 1" | "m0 = 2" | "m0 = 3" | "m0 = 4" | "m0 = 5" | "m0 = 6"
    | "m0 = 7" | "m0 = 8" | "m0 = 9" | "m0 = 10" | "m0 = 11" | "m0 = 12"
    by blast
  then show ?thesis
  proof cases
    case 1
    then show ?thesis using assms b
      by (auto simp: month_day_def m0_def [symmetric] DAYS_BEFORE_MONTH_def DAYS_IN_MONTH_def split: if_splits)
  qed (use assms b in \<open>auto simp: month_day_def m0_def [symmetric] DAYS_BEFORE_MONTH_def DAYS_IN_MONTH_def split: if_splits\<close>)
qed


lemma cycle_decomposition:
  fixes a :: int
  defines "n400 \<equiv> a div 146097" and "r1 \<equiv> a mod 146097"
  defines "n100 \<equiv> r1 div 36524" and "r2 \<equiv> r1 mod 36524"
  defines "n4 \<equiv> r2 div 1461" and "r3 \<equiv> r2 mod 1461"
  defines "n1 \<equiv> r3 div 365" and "r4 \<equiv> r3 mod 365"
  shows "a = 146097 * n400 + 36524 * n100 + 1461 * n4 + 365 * n1 + r4"
    and "0 \<le> n100" "n100 \<le> 4" "0 \<le> n4" "n4 \<le> 24" "0 \<le> n1" "n1 \<le> 4" "0 \<le> r4" "r4 < 365"
    and "n100 = 4 \<Longrightarrow> n4 = 0 \<and> n1 = 0 \<and> r4 = 0"
    and "n1 = 4 \<Longrightarrow> r4 = 0 \<and> n4 \<le> 23"
proof -
  have b1: "0 \<le> r1" "r1 < 146097" by (simp_all add: r1_def)
  have b2: "0 \<le> r2" "r2 < 36524" by (simp_all add: r2_def)
  have b3: "0 \<le> r3" "r3 < 1461" by (simp_all add: r3_def)
  have b4: "0 \<le> r4" "r4 < 365" by (simp_all add: r4_def)
  have e1: "a = 146097 * n400 + r1" by (simp add: n400_def r1_def)
  have e2: "r1 = 36524 * n100 + r2" by (simp add: n100_def r2_def)
  have e3: "r2 = 1461 * n4 + r3" by (simp add: n4_def r3_def)
  have e4: "r3 = 365 * n1 + r4" by (simp add: n1_def r4_def)
  show "a = 146097 * n400 + 36524 * n100 + 1461 * n4 + 365 * n1 + r4"
    using e1 e2 e3 e4 by linarith
  show "0 \<le> r4" "r4 < 365" by (rule b4)+
  show c100: "0 \<le> n100" "n100 \<le> 4" using b1 e2 b2 by linarith+
  show c4: "0 \<le> n4" "n4 \<le> 24" using b2 e3 b3 by linarith+
  show c1: "0 \<le> n1" "n1 \<le> 4" using b3 e4 b4 by linarith+
  show "n100 = 4 \<Longrightarrow> n4 = 0 \<and> n1 = 0 \<and> r4 = 0"
    using b1 e2 b2 e3 b3 e4 b4 c4 c1 by linarith
  show "n1 = 4 \<Longrightarrow> r4 = 0 \<and> n4 \<le> 23"
    using b2 e3 b3 e4 b4 c4 by linarith
qed


lemma ord2ymd_sound:
  assumes "ord2ymd n = (y, m, d)"
  shows "ymd2ord y m d = n \<and> 1 \<le> m \<and> m \<le> 12 \<and> 1 \<le> d \<and> d \<le> days_in_month y m"
proof -
  define a where "a = n - 1"
  define n400 where "n400 = a div 146097"
  define n100 where "n100 = a mod 146097 div 36524"
  define n4 where "n4 = a mod 146097 mod 36524 div 1461"
  define n1 where "n1 = a mod 146097 mod 36524 mod 1461 div 365"
  define r4 where "r4 = a mod 146097 mod 36524 mod 1461 mod 365"
  note defs = n400_def n100_def n4_def n1_def r4_def
  have eq: "a = 146097 * n400 + 36524 * n100 + 1461 * n4 + 365 * n1 + r4"
    and bnd: "0 \<le> n100" "n100 \<le> 4" "0 \<le> n4" "n4 \<le> 24" "0 \<le> n1" "n1 \<le> 4" "0 \<le> r4" "r4 < 365"
    and c100: "n100 = 4 \<Longrightarrow> n4 = 0 \<and> n1 = 0 \<and> r4 = 0"
    and c1: "n1 = 4 \<Longrightarrow> r4 = 0 \<and> n4 \<le> 23"
    using cycle_decomposition [of a, folded defs] by blast+
  have unfold: "ord2ymd n =
      (if n1 = 4 \<or> n100 = 4 then (400 * n400 + 100 * n100 + 4 * n4 + n1, 12, 31)
       else case month_day r4 (n1 = 3 \<and> (n4 \<noteq> 24 \<or> n100 = 3)) of
              (m, d) \<Rightarrow> (400 * n400 + 100 * n100 + 4 * n4 + n1 + 1, m, d))"
    unfolding ord2ymd_def month_day_def DI400Y_def DI100Y_def DI4Y_def Let_def
      a_def [symmetric] defs [symmetric]
    by (simp add: algebra_simps)
  show ?thesis
  proof (cases "n100 = 4")
    case True
    with c100 have z: "n4 = 0" "n1 = 0" "r4 = 0" by simp_all
    from assms unfold True z have r: "y = 400 * n400 + 400" "m = 12" "d = 31" by simp_all
    have yc: "y = 400 * n400 + 100 * 3 + 4 * 24 + 3 + 1" by (simp add: r)
    have "days_before_year y = 146097 * n400 + 36524 * 3 + 1461 * 24 + 365 * 3"
      unfolding yc by (rule days_before_year_cycle) simp_all
    then have dby: "days_before_year y = 146097 * n400 + 145731" by simp
    have "is_leap y \<longleftrightarrow> (3::int) = 3 \<and> ((24::int) \<noteq> 24 \<or> (3::int) = 3)"
      unfolding yc by (rule is_leap_cycle) simp_all
    then have leap: "is_leap y" by simp
    show ?thesis
      using dby leap eq True z
      by (simp add: r ymd2ord_def days_before_month_def days_in_month_def
            DAYS_BEFORE_MONTH_def DAYS_IN_MONTH_def a_def)
  next
    case n100: False
    with bnd have b100: "n100 \<le> 3" by linarith
    show ?thesis
    proof (cases "n1 = 4")
      case True
      with c1 have z: "r4 = 0" "n4 \<le> 23" by simp_all
      from assms unfold True have r: "y = 400 * n400 + 100 * n100 + 4 * n4 + 4" "m = 12" "d = 31"
        by simp_all
      have yc: "y = 400 * n400 + 100 * n100 + 4 * n4 + 3 + 1" by (simp add: r)
      have "days_before_year y = 146097 * n400 + 36524 * n100 + 1461 * n4 + 365 * 3"
        unfolding yc by (rule days_before_year_cycle) (use bnd b100 in simp_all)
      then have dby: "days_before_year y = 146097 * n400 + 36524 * n100 + 1461 * n4 + 1095"
        by simp
      have "is_leap y \<longleftrightarrow> (3::int) = 3 \<and> (n4 \<noteq> 24 \<or> n100 = 3)"
        unfolding yc by (rule is_leap_cycle) (use bnd b100 in simp_all)
      then have leap: "is_leap y" using z by simp
      show ?thesis
        using dby leap eq True z
        by (simp add: r ymd2ord_def days_before_month_def days_in_month_def
              DAYS_BEFORE_MONTH_def DAYS_IN_MONTH_def a_def)
    next
      case n1: False
      with bnd have b1: "n1 \<le> 3" by linarith
      define L where "L \<longleftrightarrow> n1 = 3 \<and> (n4 \<noteq> 24 \<or> n100 = 3)"
      obtain m' d' where md: "month_day r4 L = (m', d')" by (cases "month_day r4 L")
      from assms unfold n100 n1 md have r: "y = 400 * n400 + 100 * n100 + 4 * n4 + n1 + 1" "m = m'" "d = d'"
        by (simp_all add: L_def)
      have dby: "days_before_year y = 146097 * n400 + 36524 * n100 + 1461 * n4 + 365 * n1"
        unfolding r by (rule days_before_year_cycle) (use bnd b100 b1 in simp_all)
      have leap: "is_leap y \<longleftrightarrow> L"
        unfolding r L_def by (rule is_leap_cycle) (use bnd b100 b1 in simp_all)
      from month_day_sound [OF bnd(7,8) md]
      have ms: "1 \<le> m" "m \<le> 12" "1 \<le> d" "d \<le> (if m = 2 \<and> L then 29 else DAYS_IN_MONTH m)"
        "DAYS_BEFORE_MONTH m + (if m > 2 \<and> L then 1 else 0) + d = r4 + 1"
        unfolding r by blast+
      show ?thesis
        using ms dby leap eq
        by (simp add: ymd2ord_def days_before_month_def days_in_month_def a_def)
    qed
  qed
qed


lemma div_step:
  fixes z k :: int
  assumes "0 < k"
  shows "(z + 1) div k = z div k + (if (z + 1) mod k = 0 then 1 else 0)"
proof (cases "(z + 1) mod k = 0")
  case True
  have "z + 1 = k * ((z + 1) div k)" using True by (simp add: mod_eq_0_iff_dvd)
  then have "z = k * ((z + 1) div k - 1) + (k - 1)" by (simp add: algebra_simps)
  then have "z div k = (z + 1) div k - 1"
    by (rule int_div_pos_eq) (use assms in simp_all)
  with True show ?thesis by simp
next
  case False
  have m: "0 \<le> (z + 1) mod k" "(z + 1) mod k < k" using assms by simp_all
  have "z + 1 = k * ((z + 1) div k) + (z + 1) mod k" by simp
  then have "z = k * ((z + 1) div k) + ((z + 1) mod k - 1)" by linarith
  then have "z div k = (z + 1) div k"
    by (rule int_div_pos_eq) (use m False in linarith)+
  with False show ?thesis by simp
qed

lemma mod4_of_mod100: "(y::int) mod 100 = 0 \<Longrightarrow> y mod 4 = 0"
proof -
  assume "y mod 100 = 0"
  moreover have "y mod 100 mod 4 = y mod 4" by (rule mod_mod_cancel) simp
  ultimately show ?thesis by simp
qed

lemma mod100_of_mod400: "(y::int) mod 400 = 0 \<Longrightarrow> y mod 100 = 0"
proof -
  assume "y mod 400 = 0"
  moreover have "y mod 400 mod 100 = y mod 100" by (rule mod_mod_cancel) simp
  ultimately show ?thesis by simp
qed


lemma days_before_year_step:
  "days_before_year (y + 1) = days_before_year y + (if is_leap y then 366 else 365)"
proof -
  define p4 p100 p400 q4 q100 q400 where
    "p4 = y div 4" and "p100 = y div 100" and "p400 = y div 400" and
    "q4 = (y - 1) div 4" and "q100 = (y - 1) div 100" and "q400 = (y - 1) div 400"
  note defs = this
  have d4: "p4 = q4 + (if y mod 4 = 0 then 1 else 0)"
    unfolding defs using div_step [of 4 "y - 1"] by simp
  have d100: "p100 = q100 + (if y mod 100 = 0 then 1 else 0)"
    unfolding defs using div_step [of 100 "y - 1"] by simp
  have d400: "p400 = q400 + (if y mod 400 = 0 then 1 else 0)"
    unfolding defs using div_step [of 400 "y - 1"] by simp
  have e: "days_before_year (y + 1) = y * 365 + p4 - p100 + p400"
    unfolding defs by (simp add: days_before_year_def Let_def)
  have f: "days_before_year y = (y - 1) * 365 + q4 - q100 + q400"
    unfolding defs by (simp add: days_before_year_def Let_def)
  have i1: "y mod 100 = 0 \<longrightarrow> y mod 4 = 0" using mod4_of_mod100 [of y] by simp
  have i2: "y mod 400 = 0 \<longrightarrow> y mod 100 = 0" using mod100_of_mod400 [of y] by simp
  define A B C where "A \<longleftrightarrow> y mod 4 = 0" and "B \<longleftrightarrow> y mod 100 = 0" and "C \<longleftrightarrow> y mod 400 = 0"
  note abc = this
  have d4': "p4 = q4 + (if A then 1 else 0)" using d4 by (simp add: abc)
  have d100': "p100 = q100 + (if B then 1 else 0)" using d100 by (simp add: abc)
  have d400': "p400 = q400 + (if C then 1 else 0)" using d400 by (simp add: abc)
  have l: "is_leap y \<longleftrightarrow> A \<and> (\<not> B \<or> C)" by (simp add: is_leap_def abc)
  have j1: "B \<longrightarrow> A" using i1 by (simp add: abc)
  have j2: "C \<longrightarrow> B" using i2 by (simp add: abc)
  have "y * 365 + p4 - p100 + p400
          = (y - 1) * 365 + q4 - q100 + q400 + (if A \<and> (\<not> B \<or> C) then 366 else 365)"
    using d4' d100' d400' j1 j2 by (cases A; cases B; cases C) simp_all
  then show ?thesis unfolding e f l .
qed

lemma days_before_year_mono:
  "y \<le> y' \<Longrightarrow> days_before_year y \<le> days_before_year y'"
proof (induction y' rule: int_ge_induct)
  case base
  show ?case by simp
next
  case (step i)
  have "days_before_year i \<le> days_before_year (i + 1)"
    by (simp add: days_before_year_step)
  with step.IH show ?case by linarith
qed

lemma days_before_year_1: "days_before_year 1 = 0"
  by (simp add: days_before_year_def)

lemma days_before_year_10000: "days_before_year 10000 = 3652059"
  by (simp add: days_before_year_def)

lemma month_cases:
  fixes m :: int
  assumes "1 \<le> m" "m \<le> 12"
  obtains "m = 1" | "m = 2" | "m = 3" | "m = 4" | "m = 5" | "m = 6"
    | "m = 7" | "m = 8" | "m = 9" | "m = 10" | "m = 11" | "m = 12"
proof -
  from assms have "m = 1 \<or> m = 2 \<or> m = 3 \<or> m = 4 \<or> m = 5 \<or> m = 6 \<or>
    m = 7 \<or> m = 8 \<or> m = 9 \<or> m = 10 \<or> m = 11 \<or> m = 12"
    by arith
  then show thesis using that by blast
qed

lemma days_in_month_bounds:
  assumes "1 \<le> m" "m \<le> 12"
  shows "28 \<le> days_in_month y m" and "days_in_month y m \<le> 31"
  using assms(1,2)
  by (cases m rule: month_cases; simp add: days_in_month_def DAYS_IN_MONTH_def)+

lemma days_before_month_nonneg:
  assumes "1 \<le> m" "m \<le> 12"
  shows "0 \<le> days_before_month y m"
  using assms(1,2)
  by (cases m rule: month_cases; simp add: days_before_month_def DAYS_BEFORE_MONTH_def)

lemma days_before_month_succ:
  assumes "1 \<le> m" "m < 12"
  shows "days_before_month y (m + 1) = days_before_month y m + days_in_month y m"
proof -
  from assms have "1 \<le> m" "m \<le> 12" by simp_all
  then show ?thesis using assms(2)
    by (cases m rule: month_cases;
        simp add: days_before_month_def days_in_month_def DAYS_BEFORE_MONTH_def DAYS_IN_MONTH_def)
qed

lemma days_before_month_end:
  assumes "1 \<le> m" "m \<le> 12"
  shows "days_before_month y m + days_in_month y m \<le> (if is_leap y then 366 else 365)"
  using assms(1,2)
  by (cases m rule: month_cases;
      simp add: days_before_month_def days_in_month_def DAYS_BEFORE_MONTH_def DAYS_IN_MONTH_def)

lemma days_before_month_less:
  assumes "1 \<le> m" "m < m'" "m' \<le> 12"
  shows "days_before_month y m + days_in_month y m \<le> days_before_month y m'"
  using assms(2,1,3)
proof (induction m' rule: int_gr_induct)
  case base
  then show ?case by (simp add: days_before_month_succ)
next
  case (step i)
  have "days_before_month y (i + 1) = days_before_month y i + days_in_month y i"
    using step.hyps step.prems by (intro days_before_month_succ) linarith+
  moreover have "0 \<le> days_in_month y i"
    using days_in_month_bounds(1) [of i y] step.hyps step.prems by linarith
  moreover have "days_before_month y m + days_in_month y m \<le> days_before_month y i"
    using step.IH step.prems by linarith
  ultimately show ?case by linarith
qed

lemma ymd2ord_bounds:
  assumes "1 \<le> m" "m \<le> 12" "1 \<le> d" "d \<le> days_in_month y m"
  shows "days_before_year y < ymd2ord y m d" and "ymd2ord y m d \<le> days_before_year (y + 1)"
proof -
  show "days_before_year y < ymd2ord y m d"
    using days_before_month_nonneg [OF assms(1,2), of y] assms(3) by (simp add: ymd2ord_def)
  show "ymd2ord y m d \<le> days_before_year (y + 1)"
    using days_before_month_end [OF assms(1,2), of y] assms(4)
    by (simp add: ymd2ord_def days_before_year_step split: if_splits)
qed

lemma ymd2ord_less:
  assumes v: "1 \<le> m" "m \<le> 12" "1 \<le> d" "d \<le> days_in_month y m"
    and v': "1 \<le> m'" "m' \<le> 12" "1 \<le> d'" "d' \<le> days_in_month y' m'"
    and lt: "y < y' \<or> (y = y' \<and> (m < m' \<or> (m = m' \<and> d < d')))"
  shows "ymd2ord y m d < ymd2ord y' m' d'"
proof -
  consider (y) "y < y'" | (m) "y = y'" "m < m'" | (d) "y = y'" "m = m'" "d < d'"
    using lt by blast
  then show ?thesis
  proof cases
    case y
    then have "days_before_year (y + 1) \<le> days_before_year y'"
      by (intro days_before_year_mono) simp
    with ymd2ord_bounds(2) [OF v] ymd2ord_bounds(1) [OF v'] show ?thesis by linarith
  next
    case m
    with days_before_month_less [OF v(1) m(2) v'(2), of y] v(4) v'(3)
    show ?thesis by (simp add: ymd2ord_def)
  next
    case d
    then show ?thesis by (simp add: ymd2ord_def)
  qed
qed

lemma ord2ymd_year_range:
  assumes "ord2ymd n = (y, m, d)" "1 \<le> n" "n \<le> MAXORDINAL"
  shows "1 \<le> y" and "y \<le> 9999"
proof -
  from ord2ymd_sound [OF assms(1)]
  have s: "ymd2ord y m d = n" "1 \<le> m" "m \<le> 12" "1 \<le> d" "d \<le> days_in_month y m"
    by blast+
  note b = ymd2ord_bounds [OF s(2-5)]
  show "1 \<le> y"
  proof (rule ccontr)
    assume "\<not> 1 \<le> y"
    then have "days_before_year (y + 1) \<le> days_before_year 1"
      by (intro days_before_year_mono) simp
    with b(2) s(1) assms(2) show False by (simp add: days_before_year_1)
  qed
  show "y \<le> 9999"
  proof (rule ccontr)
    assume "\<not> y \<le> 9999"
    then have "days_before_year 10000 \<le> days_before_year y"
      by (intro days_before_year_mono) simp
    with b(1) s(1) assms(3) show False by (simp add: days_before_year_10000 MAXORDINAL_def)
  qed
qed

lemma toordinal_range:
  assumes "valid_datetime dt"
  shows "1 \<le> toordinal dt" and "toordinal dt \<le> MAXORDINAL"
proof -
  from assms have v: "1 \<le> month dt" "month dt \<le> 12" "1 \<le> day dt"
    "day dt \<le> days_in_month (year dt) (month dt)" and y: "1 \<le> year dt" "year dt \<le> 9999"
    by (simp_all add: valid_datetime_def)
  note b = ymd2ord_bounds [OF v]
  have "days_before_year 1 \<le> days_before_year (year dt)"
    using y by (intro days_before_year_mono) simp
  with b(1) show "1 \<le> toordinal dt" by (simp add: toordinal_def days_before_year_1)
  have "days_before_year (year dt + 1) \<le> days_before_year 10000"
    using y by (intro days_before_year_mono) simp
  with b(2) show "toordinal dt \<le> MAXORDINAL"
    by (simp add: toordinal_def days_before_year_10000 MAXORDINAL_def)
qed

lemma time_of_day_split:
  fixes h mi s :: int
  assumes "0 \<le> mi" "mi \<le> 59" "0 \<le> s" "s \<le> 59"
  shows "(h * 3600 + mi * 60 + s) div 3600 = h"
    and "(h * 3600 + mi * 60 + s) mod 3600 div 60 = mi"
    and "(h * 3600 + mi * 60 + s) mod 3600 mod 60 = s"
proof -
  have e: "h * 3600 + mi * 60 + s = 3600 * h + (mi * 60 + s)" by simp
  show "(h * 3600 + mi * 60 + s) div 3600 = h"
    by (rule int_div_pos_eq [OF e]) (use assms in linarith)+
  have r: "(h * 3600 + mi * 60 + s) mod 3600 = mi * 60 + s"
    by (rule int_mod_pos_eq [OF e]) (use assms in linarith)+
  have e': "mi * 60 + s = 60 * mi + s" by simp
  show "(h * 3600 + mi * 60 + s) mod 3600 div 60 = mi"
    unfolding r by (rule int_div_pos_eq [OF e']) (use assms in linarith)+
  show "(h * 3600 + mi * 60 + s) mod 3600 mod 60 = s"
    unfolding r by (rule int_mod_pos_eq [OF e']) (use assms in linarith)+
qed

lemma add_days_Inr:
  assumes v: "valid_datetime dt" and r: "add_days dt k = Inr dt'"
  shows "valid_datetime dt'" and "toordinal dt' = toordinal dt + k"
    and "hour dt' = hour dt" and "minute dt' = minute dt" and "second dt' = second dt"
    and "1 \<le> toordinal dt + k" and "toordinal dt + k \<le> MAXORDINAL"
proof -
  from v have t: "0 \<le> hour dt" "hour dt \<le> 23" "0 \<le> minute dt" "minute dt \<le> 59"
    "0 \<le> second dt" "second dt \<le> 59"
    by (simp_all add: valid_datetime_def)
  note ts = time_of_day_split [OF t(3-6), of "hour dt"]
  obtain y m d where o: "ord2ymd (toordinal dt + k) = (y, m, d)"
    by (cases "ord2ymd (toordinal dt + k)")
  from r have rng: "0 < toordinal dt + k" "toordinal dt + k \<le> MAXORDINAL"
    by (simp_all add: add_days_def Let_def split: if_splits)
  from r o rng have dt': "dt' = \<lparr>year = y, month = m, day = d, hour = hour dt,
      minute = minute dt, second = second dt\<rparr>"
    by (simp add: add_days_def Let_def ts split: if_splits)
  from rng show "1 \<le> toordinal dt + k" "toordinal dt + k \<le> MAXORDINAL" by simp_all
  from ord2ymd_sound [OF o]
  have s: "ymd2ord y m d = toordinal dt + k" "1 \<le> m" "m \<le> 12" "1 \<le> d" "d \<le> days_in_month y m"
    by blast+
  have yr: "1 \<le> y" "y \<le> 9999"
    using ord2ymd_year_range [OF o] rng by simp_all
  show "valid_datetime dt'" using s yr t by (simp add: dt' valid_datetime_def)
  show "toordinal dt' = toordinal dt + k" using s(1) by (simp add: dt' toordinal_def)
  show "hour dt' = hour dt" "minute dt' = minute dt" "second dt' = second dt"
    by (simp_all add: dt')
qed

lemma add_days_defined:
  assumes "\<bar>k\<bar> \<le> 999999999" "1 \<le> toordinal dt + k" "toordinal dt + k \<le> MAXORDINAL"
  shows "\<exists>dt'. add_days dt k = Inr dt'"
  using assms by (simp add: add_days_def Let_def split: prod.split)

lemma add_days_overflow:
  assumes "\<not> (\<bar>k\<bar> \<le> 999999999 \<and> 1 \<le> toordinal dt + k \<and> toordinal dt + k \<le> MAXORDINAL)"
  shows "add_days dt k = Inl OverflowError"
  using assms by (auto simp add: add_days_def Let_def)

lemma weekday_range:
  "0 \<le> weekday dt" "weekday dt \<le> 6"
  by (simp_all add: weekday_def)

lemma weekday_le_toordinal:
  assumes "1 \<le> toordinal dt"
  shows "weekday dt \<le> toordinal dt - 1"
proof -
  define a where "a = toordinal dt - 1"
  have "0 \<le> a" using assms by (simp add: a_def)
  have "toordinal dt + 6 = a + 7" by (simp add: a_def)
  then have "weekday dt = (a + 7) mod 7" unfolding weekday_def by (rule arg_cong)
  also have "\<dots> = a mod 7" by simp
  also have "\<dots> \<le> a" using \<open>0 \<le> a\<close> by (rule zmod_le_nonneg_dividend)
  finally show ?thesis by (simp add: a_def)
qed

lemma weekday_of_week_start:
  assumes "toordinal dt' = toordinal dt - weekday dt"
  shows "weekday dt' = 0"
proof -
  define a where "a = toordinal dt + 6"
  have "toordinal dt' + 6 = a - a mod 7" using assms by (simp add: weekday_def a_def)
  also have "\<dots> = 7 * (a div 7)" by (simp add: minus_mod_eq_mult_div)
  finally show ?thesis by (simp add: weekday_def)
qed

lemma dt_le_of_toordinal:
  assumes v: "valid_datetime a" "valid_datetime b"
    and le: "toordinal a \<le> toordinal b"
    and t: "hour a = hour b" "minute a = minute b" "second a = second b"
  shows "dt_le a b"
proof -
  from v have va: "1 \<le> month a" "month a \<le> 12" "1 \<le> day a" "day a \<le> days_in_month (year a) (month a)"
    and vb: "1 \<le> month b" "month b \<le> 12" "1 \<le> day b" "day b \<le> days_in_month (year b) (month b)"
    by (simp_all add: valid_datetime_def)
  have "\<not> (year b < year a \<or> (year b = year a \<and> (month b < month a \<or> (month b = month a \<and> day b < day a))))"
  proof
    assume "year b < year a \<or> (year b = year a \<and> (month b < month a \<or> (month b = month a \<and> day b < day a)))"
    from ymd2ord_less [OF vb va this] le show False by (simp add: toordinal_def)
  qed
  then show ?thesis using t by (auto simp add: dt_le_def dt_key_def)
qed

lemma strptime_valid:
  assumes "strptime ds fmt = Inr dt"
  shows "valid_datetime dt"
  using assms
  by (auto simp add: strptime_def mk_datetime_def Let_def
      split: option.splits if_splits list.splits prod.splits)

section \<open>The codec: tokens and renderings\<close>

lemma strftime_render:
  "tokenize fmt = Some toks \<Longrightarrow> strftime dt fmt = concat (map (render dt) toks)"
proof (induction fmt arbitrary: toks rule: tokenize.induct)
  case 1
  then show ?case by simp
next
  case (2 c)
  then show ?case by (auto split: if_splits)
next
  case (3 c d cs)
  show ?case
  proof (cases "c = CHR ''%''")
    case True
    with 3(4) obtain t ts where t: "directive_of d = Some t" "tokenize cs = Some ts" "toks = t # ts"
      by (auto split: if_splits option.splits)
    from 3(4) True have nz: "c \<noteq> CHR 0x00" by (auto split: if_splits)
    from 3(1) [OF nz True t(1,2)] have ih: "strftime dt cs = concat (map (render dt) ts)" .
    from t(1) show ?thesis using True ih t(3)
      by (auto simp add: directive_of_def split: if_splits)
  next
    case False
    from 3(4) have nz: "c \<noteq> CHR 0x00" by (auto split: if_splits)
    show ?thesis
    proof (cases "is_space c")
      case True
      with 3(4) False nz obtain us where us: "tokenize (d # cs) = Some us"
        by (auto split: option.splits)
      from 3(2) [OF nz False True us] have ih: "strftime dt (d # cs) = concat (map (render dt) us)" .
      from 3(4) False nz True us have "concat (map (render dt) toks) = c # concat (map (render dt) us)"
        by (auto split: list.splits token.splits)
      with ih False show ?thesis by simp
    next
      case sp: False
      with 3(4) False nz obtain us where us: "tokenize (d # cs) = Some us" "toks = Lit c # us"
        by auto
      from 3(3) [OF nz False sp us(1)] have ih: "strftime dt (d # cs) = concat (map (render dt) us)" .
      with False us(2) show ?thesis by simp
    qed
  qed
qed


lemma tokenize_tokens:
  "tokenize fmt = Some toks \<Longrightarrow> t \<in> set toks \<Longrightarrow>
     (\<forall>c. t = Lit c \<longrightarrow> \<not> is_space c) \<and> (\<forall>w. t = Ws w \<longrightarrow> w \<noteq> [] \<and> (\<forall>x\<in>set w. is_space x))"
proof (induction fmt arbitrary: toks t rule: tokenize.induct)
  case 1
  then show ?case by simp
next
  case (2 c)
  then show ?case by (auto split: if_splits)
next
  case (3 c d cs)
  from 3(4) have nz: "c \<noteq> CHR 0x00" by (auto split: if_splits)
  show ?case
  proof (cases "c = CHR ''%''")
    case True
    with 3(4) obtain t0 ts where t: "directive_of d = Some t0" "tokenize cs = Some ts" "toks = t0 # ts"
      by (auto split: if_splits option.splits)
    have "(\<forall>c. t0 = Lit c \<longrightarrow> \<not> is_space c) \<and> (\<forall>w. t0 \<noteq> Ws w)"
      using t(1) by (auto simp add: directive_of_def is_space_def split: if_splits)
    with 3(1) [OF nz True t(1,2)] 3(5) t(3) show ?thesis by auto
  next
    case False
    show ?thesis
    proof (cases "is_space c")
      case True
      with 3(4) False nz obtain us where us: "tokenize (d # cs) = Some us"
        by (auto split: option.splits)
      note ih = 3(2) [OF nz False True us]
      show ?thesis
      proof (cases us)
        case Nil
        with 3(4) False nz True us have "toks = [Ws [c]]" by simp
        with 3(5) True show ?thesis by auto
      next
        case (Cons u us')
        show ?thesis
        proof (cases u)
          case (Ws w)
          with 3(4) False nz True us Cons have toks: "toks = Ws (c # w) # us'" by simp
          from ih [of u] Cons Ws have "w \<noteq> [] \<and> (\<forall>x\<in>set w. is_space x)" by simp
          with toks 3(5) True ih Cons show ?thesis by auto
        next
          case (Dir x)
          with 3(4) False nz True us Cons have toks: "toks = Ws [c] # us" by simp
          with 3(5) True ih show ?thesis by auto
        next
          case (Lit x)
          with 3(4) False nz True us Cons have toks: "toks = Ws [c] # us" by simp
          with 3(5) True ih show ?thesis by auto
        qed
      qed
    next
      case sp: False
      with 3(4) False nz obtain us where us: "tokenize (d # cs) = Some us" "toks = Lit c # us"
        by auto
      with 3(3) [OF nz False sp us(1)] 3(5) sp show ?thesis by auto
    qed
  qed
qed

lemma match_classes_split:
  "match_classes cls s = Some (m, r) \<Longrightarrow> s = m @ r"
  by (induction cls s arbitrary: m r rule: match_classes.induct)
     (auto split: if_splits option.splits)

lemma match_directive_split:
  "(m, r) \<in> set (match_directive d s) \<Longrightarrow> s = m @ r"
  by (auto simp add: match_directive_def List.map_filter_def dest: match_classes_split)

lemma match_tokens_Ws_first:
  "match_tokens (Ws w # ts) s bs \<noteq> [] \<Longrightarrow> s \<noteq> [] \<and> is_space (hd s)"
  by (cases s) (auto split: if_splits)

lemma takeWhile_take:
  "k \<le> length (takeWhile P s) \<Longrightarrow> x \<in> set (take k s) \<Longrightarrow> P x"
proof (induction s arbitrary: k)
  case Nil
  then show ?case by simp
next
  case (Cons a s)
  show ?case
  proof (cases k)
    case 0
    with Cons.prems show ?thesis by simp
  next
    case (Suc j)
    with Cons.prems have pa: "P a" by (auto split: if_splits)
    with Cons.prems Suc have "j \<le> length (takeWhile P s)" "x = a \<or> x \<in> set (take j s)" by auto
    with Cons.IH [of j] pa show ?thesis by auto
  qed
qed

lemma match_tokens_consumed:
  "(bs', rest) \<in> set (match_tokens toks s bs) \<Longrightarrow>
     \<exists>pre. s = pre @ rest \<and>
       (\<forall>w. toks \<noteq> [] \<and> last toks = Ws w \<longrightarrow> pre \<noteq> [] \<and> is_space (last pre)) \<and>
       (\<forall>c. Lit c \<in> set toks \<longrightarrow> (\<exists>x\<in>set pre. lower x = lower c))"
proof (induction toks s bs arbitrary: bs' rest rule: match_tokens.induct)
  case (1 s bs)
  then show ?case by simp
next
  case (2 c ts s bs)
  from 2(2) obtain x xs where s: "s = x # xs" "lower x = lower c"
    and m: "(bs', rest) \<in> set (match_tokens ts xs bs)"
    by (cases s) (auto split: if_splits)
  from 2(1) [OF s(1,2) m] obtain pre where
    p: "xs = pre @ rest"
       "\<forall>w. ts \<noteq> [] \<and> last ts = Ws w \<longrightarrow> pre \<noteq> [] \<and> is_space (last pre)"
       "\<forall>c. Lit c \<in> set ts \<longrightarrow> (\<exists>x\<in>set pre. lower x = lower c)"
    by blast
  have "s = (x # pre) @ rest" using s(1) p(1) by simp
  moreover have "\<forall>w. Lit c # ts \<noteq> [] \<and> last (Lit c # ts) = Ws w \<longrightarrow>
      x # pre \<noteq> [] \<and> is_space (last (x # pre))"
    using p(2) by auto
  moreover have "\<forall>c'. Lit c' \<in> set (Lit c # ts) \<longrightarrow> (\<exists>y\<in>set (x # pre). lower y = lower c')"
    using p(3) s(2) by auto
  ultimately show ?case by blast
next
  case (3 w ts s bs)
  from 3(2) obtain k where k: "1 \<le> k" "k \<le> length (takeWhile is_space s)"
    and m: "(bs', rest) \<in> set (match_tokens ts (drop k s) bs)"
    by auto
  have kin: "k \<in> set (rev [1..<Suc (length (takeWhile is_space s))])" using k by auto
  from 3(1) [OF kin m] obtain pre where
    p: "drop k s = pre @ rest"
       "\<forall>w. ts \<noteq> [] \<and> last ts = Ws w \<longrightarrow> pre \<noteq> [] \<and> is_space (last pre)"
       "\<forall>c. Lit c \<in> set ts \<longrightarrow> (\<exists>x\<in>set pre. lower x = lower c)"
    by blast
  have "length (takeWhile is_space s) \<le> length s" by (rule length_takeWhile_le)
  with k have tk: "take k s \<noteq> []" by auto
  have sp: "is_space (last (take k s))"
    using takeWhile_take [OF k(2), of "last (take k s)"] tk last_in_set by blast
  have e: "s = (take k s @ pre) @ rest" using p(1) by (metis append_assoc append_take_drop_id)
  have "\<forall>w'. Ws w # ts \<noteq> [] \<and> last (Ws w # ts) = Ws w' \<longrightarrow>
      take k s @ pre \<noteq> [] \<and> is_space (last (take k s @ pre))"
  proof (intro allI impI)
    fix w' assume a: "Ws w # ts \<noteq> [] \<and> last (Ws w # ts) = Ws w'"
    show "take k s @ pre \<noteq> [] \<and> is_space (last (take k s @ pre))"
    proof (cases "pre = []")
      case True
      with tk sp show ?thesis by simp
    next
      case False
      have "ts \<noteq> []"
      proof
        assume "ts = []"
        with m have "drop k s = rest" by simp
        with p(1) False show False by simp
      qed
      with a p(2) have "is_space (last pre)" by auto
      with False show ?thesis by simp
    qed
  qed
  moreover have "\<forall>c. Lit c \<in> set (Ws w # ts) \<longrightarrow> (\<exists>x\<in>set (take k s @ pre). lower x = lower c)"
    using p(3) by auto
  ultimately show ?case using e by blast
next
  case (4 d ts s bs)
  from 4(2) obtain m r where mr: "(m, r) \<in> set (match_directive d s)"
    and mt: "(bs', rest) \<in> set (match_tokens ts r ((d, m) # bs))"
    by auto
  from 4(1) [OF mr refl mt] obtain pre where
    p: "r = pre @ rest"
       "\<forall>w. ts \<noteq> [] \<and> last ts = Ws w \<longrightarrow> pre \<noteq> [] \<and> is_space (last pre)"
       "\<forall>c. Lit c \<in> set ts \<longrightarrow> (\<exists>x\<in>set pre. lower x = lower c)"
    by blast
  have e: "s = (m @ pre) @ rest" using match_directive_split [OF mr] p(1) by simp
  have "\<forall>w. Dir d # ts \<noteq> [] \<and> last (Dir d # ts) = Ws w \<longrightarrow>
      m @ pre \<noteq> [] \<and> is_space (last (m @ pre))"
    using p(2) by auto
  moreover have "\<forall>c. Lit c \<in> set (Dir d # ts) \<longrightarrow> (\<exists>x\<in>set (m @ pre). lower x = lower c)"
    using p(3) by auto
  ultimately show ?case using e by blast
qed

lemma digit_char_digit:
  assumes "0 \<le> k" "k \<le> 9"
  shows "digit_char k \<in> set digits"
proof -
  from assms have "k = 0 \<or> k = 1 \<or> k = 2 \<or> k = 3 \<or> k = 4 \<or> k = 5 \<or> k = 6 \<or> k = 7 \<or> k = 8 \<or> k = 9"
    by arith
  then show ?thesis by (auto simp add: digit_char_def digits_def)
qed

lemma digits_plain:
  "c \<in> set digits \<Longrightarrow> \<not> is_space c \<and> c \<noteq> CHR '',''"
  by (auto simp add: digits_def is_space_def)

lemma pad2_digits:
  assumes "0 \<le> n" "n \<le> 99"
  shows "set (pad2 n) \<subseteq> set digits"
proof -
  have b: "10 * (n div 10) \<le> n" "n < 10 * (n div 10) + 10" by (rule int_div_bounds, simp)+
  have "0 \<le> n div 10" "n div 10 \<le> 9" using assms b by linarith+
  moreover have "0 \<le> n mod 10" "n mod 10 < 10" by simp_all
  ultimately show ?thesis by (simp add: pad2_def digit_char_digit)
qed

lemma pad4_digits:
  assumes "0 \<le> n" "n \<le> 9999"
  shows "set (pad4 n) \<subseteq> set digits"
proof -
  have b: "1000 * (n div 1000) \<le> n" "n < 1000 * (n div 1000) + 1000" by (rule int_div_bounds, simp)+
  have "0 \<le> n div 1000" "n div 1000 \<le> 9" using assms b by linarith+
  moreover have "0 \<le> n div 100 mod 10" "n div 100 mod 10 < 10" by simp_all
  moreover have "0 \<le> n div 10 mod 10" "n div 10 mod 10 < 10" by simp_all
  moreover have "0 \<le> n mod 10" "n mod 10 < 10" by simp_all
  ultimately show ?thesis by (simp add: pad4_def digit_char_digit)
qed

lemma render_Dir_digits:
  assumes "valid_datetime dt"
  shows "set (render dt (Dir d)) \<subseteq> set digits"
proof -
  from assms have m: "1 \<le> month dt" "month dt \<le> 12" by (simp_all add: valid_datetime_def)
  from assms days_in_month_bounds(2) [OF m, of "year dt"]
  have "0 \<le> year dt" "year dt \<le> 9999" "0 \<le> month dt" "month dt \<le> 99"
    "0 \<le> day dt" "day dt \<le> 99" "0 \<le> hour dt" "hour dt \<le> 99"
    "0 \<le> minute dt" "minute dt \<le> 99" "0 \<le> second dt" "second dt \<le> 99"
    by (simp_all add: valid_datetime_def)
  then show ?thesis by (cases d) (simp_all add: pad2_digits pad4_digits)
qed

lemma render_nonempty:
  assumes "tokenize fmt = Some toks" "t \<in> set toks"
  shows "render dt t \<noteq> []"
proof (cases t)
  case (Dir d)
  then show ?thesis by (cases d) (simp_all add: pad2_def pad4_def)
next
  case (Lit c)
  then show ?thesis by simp
next
  case (Ws w)
  with tokenize_tokens [OF assms] show ?thesis by simp
qed

lemma lower_comma:
  "lower x = CHR '','' \<Longrightarrow> x = CHR '',''"
proof (rule ccontr)
  assume l: "lower x = CHR '',''" and n: "x \<noteq> CHR '',''"
  define k where "k = (of_char x :: nat)"
  have k: "k < 256" unfolding k_def by simp
  with l n have c: "(65 \<le> k \<and> k \<le> 90) \<or> (192 \<le> k \<and> k \<le> 222 \<and> k \<noteq> 215)"
    and e: "char_of (k + 32) = CHR '',''"
    by (auto simp add: lower_def Let_def k_def split: if_splits)
  from e have "of_char (char_of (k + 32) :: char) = (of_char CHR '','' :: nat)" by simp
  then have "(k + 32) mod 256 = 44" by (simp add: of_char_of)
  with c k show False by auto
qed

lemma strptime_Inr:
  assumes "strptime d fmt = Inr dt"
  obtains toks bs ms where "tokenize fmt = Some toks" "distinct (directives toks)"
    "match_tokens toks d [] = (bs, []) # ms"
    "mk_datetime (field bs DirY 1900) (field bs Dirm 1) (field bs Dird 1)
       (field bs DirH 0) (field bs DirM 0) (field bs DirS 0) = Inr dt"
  using assms
  by (auto simp add: strptime_def split: option.splits if_splits list.splits prod.splits)

lemma hd_concat:
  "xs \<noteq> [] \<Longrightarrow> hd xs \<noteq> [] \<Longrightarrow> hd (concat xs) = hd (hd xs)"
  by (cases xs) simp_all

lemma last_concat:
  "xs \<noteq> [] \<Longrightarrow> last xs \<noteq> [] \<Longrightarrow> last (concat xs) = last (last xs)"
proof (induction xs)
  case Nil
  then show ?case by simp
next
  case (Cons a xs)
  show ?case
  proof (cases "xs = []")
    case True
    then show ?thesis by simp
  next
    case False
    with Cons.prems have l: "last xs \<noteq> []" by simp
    have "last xs \<in> set xs" using False by simp
    with l have "concat xs \<noteq> []" by auto
    with Cons.IH [OF False l] False show ?thesis by simp
  qed
qed

lemma render_plain:
  assumes tk: "tokenize fmt = Some toks" and t: "t \<in> set toks" and nw: "\<forall>w. t \<noteq> Ws w"
    and v: "valid_datetime dt"
  shows "\<forall>x\<in>set (render dt t). \<not> is_space x"
proof (cases t)
  case (Dir d)
  with render_Dir_digits [OF v, of d] digits_plain show ?thesis by auto
next
  case (Lit c)
  with tokenize_tokens [OF tk t] show ?thesis by simp
next
  case (Ws w)
  with nw show ?thesis by simp
qed

lemma strftime_trimmed:
  assumes p: "strptime d fmt = Inr dt" and d: "strip d = d" and v: "valid_datetime dt'"
  shows "strip (strftime dt' fmt) = strftime dt' fmt"
proof -
  from p obtain toks bs ms where tk: "tokenize fmt = Some toks"
    and m: "match_tokens toks d [] = (bs, []) # ms"
    by (rule strptime_Inr)
  have out: "strftime dt' fmt = concat (map (render dt') toks)"
    by (rule strftime_render [OF tk])
  show ?thesis
  proof (cases toks)
    case Nil
    with out show ?thesis by (simp add: strip_def)
  next
    case (Cons t ts)
    from d have dd: "d = [] \<or> (\<not> is_space (hd d) \<and> \<not> is_space (last d))"
      by (simp add: strip_fixed_iff)
    have first: "\<forall>w. hd toks \<noteq> Ws w"
    proof (intro allI notI)
      fix w assume "hd toks = Ws w"
      with Cons m have "match_tokens (Ws w # ts) d [] \<noteq> []" by simp
      from match_tokens_Ws_first [OF this] dd show False by simp
    qed
    have "(bs, []) \<in> set (match_tokens toks d [])" using m by simp
    from match_tokens_consumed [OF this] obtain pre where
      c: "d = pre @ []" "\<forall>w. toks \<noteq> [] \<and> last toks = Ws w \<longrightarrow> pre \<noteq> [] \<and> is_space (last pre)"
      by blast
    have lastt: "\<forall>w. last toks \<noteq> Ws w"
    proof (intro allI notI)
      fix w assume "last toks = Ws w"
      with c Cons have "d \<noteq> [] \<and> is_space (last d)" by simp
      with dd show False by simp
    qed
    have ne: "toks \<noteq> []" using Cons by simp
    then have hin: "hd toks \<in> set toks" and lin: "last toks \<in> set toks" by simp_all
    let ?rs = "map (render dt') toks"
    have rs: "?rs \<noteq> []" using ne by simp
    have h1: "hd ?rs = render dt' (hd toks)" using ne by (simp add: hd_map)
    have l1: "last ?rs = render dt' (last toks)" using ne by (simp add: last_map)
    have hne: "hd ?rs \<noteq> []" unfolding h1 by (rule render_nonempty [OF tk hin])
    have lne: "last ?rs \<noteq> []" unfolding l1 by (rule render_nonempty [OF tk lin])
    have "hd (concat ?rs) = hd (render dt' (hd toks))"
      using hd_concat [OF rs hne] h1 by simp
    moreover have "hd (render dt' (hd toks)) \<in> set (render dt' (hd toks))"
      using hne h1 by simp
    ultimately have a: "\<not> is_space (hd (concat ?rs))"
      using render_plain [OF tk hin first v] by simp
    have "last (concat ?rs) = last (render dt' (last toks))"
      using last_concat [OF rs lne] l1 by simp
    moreover have "last (render dt' (last toks)) \<in> set (render dt' (last toks))"
      using lne l1 by simp
    ultimately have b: "\<not> is_space (last (concat ?rs))"
      using render_plain [OF tk lin lastt v] by simp
    from a b show ?thesis unfolding out by (intro strip_fixed) simp
  qed
qed

lemma strftime_no_comma:
  assumes p: "strptime d fmt = Inr dt" and d: "CHR '','' \<notin> set d" and v: "valid_datetime dt'"
  shows "CHR '','' \<notin> set (strftime dt' fmt)"
proof
  assume a: "CHR '','' \<in> set (strftime dt' fmt)"
  from p obtain toks bs ms where tk: "tokenize fmt = Some toks"
    and m: "match_tokens toks d [] = (bs, []) # ms"
    by (rule strptime_Inr)
  from a strftime_render [OF tk, of dt'] obtain t where
    t: "t \<in> set toks" "CHR '','' \<in> set (render dt' t)"
    by auto
  have "(bs, []) \<in> set (match_tokens toks d [])" using m by simp
  from match_tokens_consumed [OF this] obtain pre where
    c: "d = pre @ []" "\<forall>c. Lit c \<in> set toks \<longrightarrow> (\<exists>x\<in>set pre. lower x = lower c)"
    by blast
  show False
  proof (cases t)
    case (Dir x)
    with render_Dir_digits [OF v, of x] digits_plain t(2) show False by auto
  next
    case (Lit x)
    with t have "Lit (CHR '','') \<in> set toks" by simp
    with c obtain y where y: "y \<in> set d" "lower y = lower (CHR '','')" by auto
    have "lower (CHR '','') = CHR '',''" by (simp add: lower_def)
    with y(2) have "y = CHR '',''" by (simp add: lower_comma)
    with y(1) d show False by simp
  next
    case (Ws w)
    with tokenize_tokens [OF tk t(1)] t(2) have "is_space (CHR '','')" by auto
    then show False by (simp add: is_space_def)
  qed
qed

section \<open>The codec: reading back a rendered date\<close>

lemma digit_cases:
  fixes k :: int
  assumes "0 \<le> k" "k \<le> 9"
  obtains "k = 0" | "k = 1" | "k = 2" | "k = 3" | "k = 4" | "k = 5" | "k = 6" | "k = 7" | "k = 8" | "k = 9"
proof -
  from assms have "k = 0 \<or> k = 1 \<or> k = 2 \<or> k = 3 \<or> k = 4 \<or> k = 5 \<or> k = 6 \<or> k = 7 \<or> k = 8 \<or> k = 9"
    by arith
  then show thesis using that by blast
qed

lemma digit_val_digit_char:
  assumes "0 \<le> k" "k \<le> 9"
  shows "digit_val (digit_char k) = k"
  using assms
  by (cases k rule: digit_cases) (simp_all add: digit_val_def digit_char_def digits_def)

lemma two_digits:
  fixes n :: int
  assumes "0 \<le> n" "n \<le> 99"
  shows "0 \<le> n div 10" "n div 10 \<le> 9" "0 \<le> n mod 10" "n mod 10 \<le> 9"
    "10 * (n div 10) + n mod 10 = n"
proof -
  have b: "10 * (n div 10) \<le> n" "n < 10 * (n div 10) + 10" by (rule int_div_bounds, simp)+
  show "0 \<le> n div 10" "n div 10 \<le> 9" using assms b by linarith+
  have "n mod 10 < 10" by simp
  then show "n mod 10 \<le> 9" by linarith
  show "0 \<le> n mod 10" by simp
  show "10 * (n div 10) + n mod 10 = n" by simp
qed

lemma strip_digits:
  assumes "set s \<subseteq> set digits"
  shows "strip s = s"
proof (rule strip_fixed)
  show "s = [] \<or> (\<not> is_space (hd s) \<and> \<not> is_space (last s))"
  proof (cases "s = []")
    case True
    then show ?thesis by simp
  next
    case False
    then have "hd s \<in> set s" "last s \<in> set s" by simp_all
    with assms digits_plain show ?thesis by blast
  qed
qed

lemma int_of_str_pad2:
  assumes "0 \<le> n" "n \<le> 99"
  shows "int_of_str (pad2 n) = n"
proof -
  note d = two_digits [OF assms]
  have "strip (pad2 n) = pad2 n" by (rule strip_digits [OF pad2_digits [OF assms]])
  then have "int_of_str (pad2 n) = 10 * digit_val (digit_char (n div 10)) + digit_val (digit_char (n mod 10))"
    by (simp add: int_of_str_def) (simp add: pad2_def)
  also have "\<dots> = 10 * (n div 10) + n mod 10"
    by (simp only: digit_val_digit_char [OF d(1,2)] digit_val_digit_char [OF d(3,4)])
  also have "\<dots> = n" by (rule d(5))
  finally show ?thesis .
qed

lemma four_digits:
  fixes n :: int
  assumes "0 \<le> n" "n \<le> 9999"
  shows "0 \<le> n div 1000" "n div 1000 \<le> 9"
    "1000 * (n div 1000) + 100 * (n div 100 mod 10) + 10 * (n div 10 mod 10) + n mod 10 = n"
proof -
  have b: "1000 * (n div 1000) \<le> n" "n < 1000 * (n div 1000) + 1000" by (rule int_div_bounds, simp)+
  show "0 \<le> n div 1000" "n div 1000 \<le> 9" using assms b by linarith+
  define a1 a2 a3 where "a1 = n div 10" and "a2 = n div 100" and "a3 = n div 1000"
  have e1: "n = 10 * a1 + n mod 10" by (simp add: a1_def)
  have "a1 div 10 = a2" unfolding a1_def a2_def by (simp add: zdiv_zmult2_eq [symmetric])
  then have e2: "a1 = 10 * a2 + a1 mod 10" by (metis mult_div_mod_eq)
  have "a2 div 10 = a3" unfolding a2_def a3_def by (simp add: zdiv_zmult2_eq [symmetric])
  then have e3: "a2 = 10 * a3 + a2 mod 10" by (metis mult_div_mod_eq)
  define m0 m1 m2 where "m0 = n mod 10" and "m1 = a1 mod 10" and "m2 = a2 mod 10"
  have "1000 * a3 + 100 * m2 + 10 * m1 + m0 = n"
    using e1 e2 e3 unfolding m0_def [symmetric] m1_def [symmetric] m2_def [symmetric] by linarith
  then show "1000 * (n div 1000) + 100 * (n div 100 mod 10) + 10 * (n div 10 mod 10) + n mod 10 = n"
    by (simp add: m0_def m1_def m2_def a1_def a2_def a3_def)
qed

lemma int_of_str_pad4:
  assumes "0 \<le> n" "n \<le> 9999"
  shows "int_of_str (pad4 n) = n"
proof -
  note d = four_digits [OF assms]
  have r: "0 \<le> n div 100 mod 10" "n div 100 mod 10 \<le> 9" "0 \<le> n div 10 mod 10"
    "n div 10 mod 10 \<le> 9" "0 \<le> n mod 10" "n mod 10 \<le> 9"
  proof -
    have "n div 100 mod 10 < 10" "n div 10 mod 10 < 10" "n mod 10 < 10" by simp_all
    then show "n div 100 mod 10 \<le> 9" "n div 10 mod 10 \<le> 9" "n mod 10 \<le> 9" by linarith+
    show "0 \<le> n div 100 mod 10" "0 \<le> n div 10 mod 10" "0 \<le> n mod 10" by simp_all
  qed
  have "strip (pad4 n) = pad4 n" by (rule strip_digits [OF pad4_digits [OF assms]])
  then have "int_of_str (pad4 n) =
      10 * (10 * (10 * digit_val (digit_char (n div 1000)) + digit_val (digit_char (n div 100 mod 10)))
              + digit_val (digit_char (n div 10 mod 10))) + digit_val (digit_char (n mod 10))"
    by (simp add: int_of_str_def) (simp add: pad4_def)
  also have "\<dots> = 10 * (10 * (10 * (n div 1000) + n div 100 mod 10) + n div 10 mod 10) + n mod 10"
    by (simp only: digit_val_digit_char [OF d(1,2)] digit_val_digit_char [OF r(1,2)]
          digit_val_digit_char [OF r(3,4)] digit_val_digit_char [OF r(5,6)])
  also have "\<dots> = 1000 * (n div 1000) + 100 * (n div 100 mod 10) + 10 * (n div 10 mod 10) + n mod 10"
    by simp
  also have "\<dots> = n" by (rule d(3))
  finally show ?thesis .
qed

lemma match_directive_Y:
  assumes "a \<in> set digits" "b \<in> set digits" "c \<in> set digits" "e \<in> set digits"
  shows "match_directive DirY (a # b # c # e # tail) = [([a, b, c, e], tail)]"
  using assms by (simp add: match_directive_def List.map_filter_def)

lemma match_directive_pad4:
  assumes "0 \<le> n" "n \<le> 9999"
  shows "match_directive DirY (pad4 n @ tail) = [(pad4 n, tail)]"
proof -
  have "set (pad4 n) \<subseteq> set digits" by (rule pad4_digits [OF assms])
  then show ?thesis unfolding pad4_def by (simp add: match_directive_Y)
qed

lemma digit_disj:
  fixes k :: int
  assumes "0 \<le> k" "k \<le> 9"
  shows "k = 0 \<or> k = 1 \<or> k = 2 \<or> k = 3 \<or> k = 4 \<or> k = 5 \<or> k = 6 \<or> k = 7 \<or> k = 8 \<or> k = 9"
  using assms by arith

lemma match_directive_d:
  assumes "0 \<le> t" "t \<le> 9" "0 \<le> u" "u \<le> 9" "1 \<le> 10 * t + u" "10 * t + u \<le> 31"
  shows "\<exists>ms. match_directive Dird (digit_char t # digit_char u # tail)
            = ([digit_char t, digit_char u], tail) # ms"
  using digit_disj [OF assms(1,2)] digit_disj [OF assms(3,4)] assms(5,6)
  by (elim disjE;
      simp add: match_directive_def List.map_filter_def digit_char_def digits_def nonzero_def)

lemma match_directive_m:
  assumes "0 \<le> t" "t \<le> 9" "0 \<le> u" "u \<le> 9" "1 \<le> 10 * t + u" "10 * t + u \<le> 12"
  shows "\<exists>ms. match_directive Dirm (digit_char t # digit_char u # tail)
            = ([digit_char t, digit_char u], tail) # ms"
  using digit_disj [OF assms(1,2)] digit_disj [OF assms(3,4)] assms(5,6)
  by (elim disjE;
      simp add: match_directive_def List.map_filter_def digit_char_def digits_def nonzero_def)

lemma match_directive_H:
  assumes "0 \<le> t" "t \<le> 9" "0 \<le> u" "u \<le> 9" "10 * t + u \<le> 23"
  shows "\<exists>ms. match_directive DirH (digit_char t # digit_char u # tail)
            = ([digit_char t, digit_char u], tail) # ms"
  using digit_disj [OF assms(1,2)] digit_disj [OF assms(3,4)] assms(5)
  by (elim disjE;
      simp add: match_directive_def List.map_filter_def digit_char_def digits_def nonzero_def)

lemma match_directive_M:
  assumes "0 \<le> t" "t \<le> 9" "0 \<le> u" "u \<le> 9" "10 * t + u \<le> 59"
  shows "\<exists>ms. match_directive DirM (digit_char t # digit_char u # tail)
            = ([digit_char t, digit_char u], tail) # ms"
  using digit_disj [OF assms(1,2)] digit_disj [OF assms(3,4)] assms(5)
  by (elim disjE;
      simp add: match_directive_def List.map_filter_def digit_char_def digits_def nonzero_def)

lemma match_directive_S:
  assumes "0 \<le> t" "t \<le> 9" "0 \<le> u" "u \<le> 9" "10 * t + u \<le> 59"
  shows "\<exists>ms. match_directive DirS (digit_char t # digit_char u # tail)
            = ([digit_char t, digit_char u], tail) # ms"
  using digit_disj [OF assms(1,2)] digit_disj [OF assms(3,4)] assms(5)
  by (elim disjE;
      simp add: match_directive_def List.map_filter_def digit_char_def digits_def nonzero_def)

lemma match_directive_render:
  assumes v: "valid_datetime dt"
  shows "\<exists>ms. match_directive d (render dt (Dir d) @ tail) = (render dt (Dir d), tail) # ms"
proof -
  from v have m: "1 \<le> month dt" "month dt \<le> 12" by (simp_all add: valid_datetime_def)
  from v days_in_month_bounds(2) [OF m, of "year dt"]
  have b: "0 \<le> year dt" "year dt \<le> 9999" "0 \<le> month dt" "month dt \<le> 99"
    "1 \<le> day dt" "day dt \<le> 31" "0 \<le> day dt" "day dt \<le> 99"
    "0 \<le> hour dt" "hour dt \<le> 23" "hour dt \<le> 99"
    "0 \<le> minute dt" "minute dt \<le> 59" "minute dt \<le> 99"
    "0 \<le> second dt" "second dt \<le> 59" "second dt \<le> 99"
    by (simp_all add: valid_datetime_def)
  show ?thesis
  proof (cases d)
    case DirY
    then show ?thesis using match_directive_pad4 [OF b(1,2), of tail] by simp
  next
    case Dirm
    note t = two_digits [OF b(3,4)]
    from match_directive_m [OF t(1-4), of tail] t(5) m Dirm show ?thesis by (simp add: pad2_def)
  next
    case Dird
    note t = two_digits [OF b(7,8)]
    from match_directive_d [OF t(1-4), of tail] t(5) b(5,6) Dird show ?thesis by (simp add: pad2_def)
  next
    case DirH
    note t = two_digits [OF b(9,11)]
    from match_directive_H [OF t(1-4), of tail] t(5) b(10) DirH show ?thesis by (simp add: pad2_def)
  next
    case DirM
    note t = two_digits [OF b(12,14)]
    from match_directive_M [OF t(1-4), of tail] t(5) b(13) DirM show ?thesis by (simp add: pad2_def)
  next
    case DirS
    note t = two_digits [OF b(15,17)]
    from match_directive_S [OF t(1-4), of tail] t(5) b(16) DirS show ?thesis by (simp add: pad2_def)
  qed
qed

lemma match_tokens_Ws_any:
  "match_tokens (Ws w # ts) s bs = match_tokens (Ws w' # ts) s bs"
  by simp

lemma upt_rev_Suc:
  "rev [Suc 0..<Suc (Suc n)] = map Suc (rev [Suc 0..<Suc n]) @ [Suc 0]"
proof -
  have "[Suc 0..<Suc (Suc n)] = Suc 0 # map Suc [Suc 0..<Suc n]"
    by (simp only: map_Suc_upt) (simp add: upt_conv_Cons del: upt_Suc)
  then show ?thesis by (simp only: rev.simps rev_map)
qed

lemma match_tokens_Ws_step:
  assumes "is_space c"
  shows "match_tokens (Ws w # ts) (c # s) bs = match_tokens (Ws w # ts) s bs @ match_tokens ts s bs"
proof -
  define n where "n = length (takeWhile is_space s)"
  have tw: "length (takeWhile is_space (c # s)) = Suc n" using assms by (simp add: n_def)
  have "match_tokens (Ws w # ts) (c # s) bs
      = concat (map (\<lambda>k. match_tokens ts (drop k (c # s)) bs) (rev [Suc 0..<Suc (Suc n)]))"
    by (simp only: match_tokens.simps tw One_nat_def)
  also have "\<dots> = concat (map (\<lambda>k. match_tokens ts (drop k (c # s)) bs)
      (map Suc (rev [Suc 0..<Suc n]) @ [Suc 0]))"
    by (simp only: upt_rev_Suc)
  also have "\<dots> = concat (map (\<lambda>k. match_tokens ts (drop k s) bs) (rev [Suc 0..<Suc n]))
      @ match_tokens ts s bs"
    by (simp add: comp_def del: upt_Suc)
  also have "concat (map (\<lambda>k. match_tokens ts (drop k s) bs) (rev [Suc 0..<Suc n]))
      = match_tokens (Ws w # ts) s bs"
    by (simp only: match_tokens.simps n_def One_nat_def)
  finally show ?thesis .
qed

lemma match_tokens_Ws_single:
  assumes "is_space c" "s = [] \<or> \<not> is_space (hd s)"
  shows "match_tokens (Ws w # ts) (c # s) bs = match_tokens ts s bs"
proof -
  have "takeWhile is_space s = []" using assms(2) by (cases s) auto
  then show ?thesis using assms(1) by simp
qed

lemma match_rendered:
  assumes v: "valid_datetime dt"
  shows "tokenize fmt = Some toks \<Longrightarrow>
    \<exists>bs' ms. match_tokens toks (strftime dt fmt) bs = (bs', []) # ms \<and>
      (\<forall>d. map_of bs' d = (if d \<in> set (directives toks) then Some (render dt (Dir d))
                            else map_of bs d))"
proof (induction fmt arbitrary: toks bs rule: tokenize.induct)
  case 1
  then show ?case by simp
next
  case (2 c)
  then show ?case by (auto split: if_splits)
next
  case (3 c d cs)
  from 3(4) have nz: "c \<noteq> CHR 0x00" by (auto split: if_splits)
  show ?case
  proof (cases "c = CHR ''%''")
    case True
    with 3(4) obtain t ts where t: "directive_of d = Some t" "tokenize cs = Some ts" "toks = t # ts"
      by (auto split: if_splits option.splits)
    note ih = 3(1) [OF nz True t(1,2)]
    have s: "strftime dt (c # d # cs) = render dt t @ strftime dt cs"
      using strftime_render [OF 3(4), of dt] strftime_render [OF t(2), of dt] t(3) by simp
    show ?thesis
    proof (cases t)
      case (Lit x)
      with t(1) have x: "x = CHR ''%''" by (auto simp add: directive_of_def split: if_splits)
      from ih [of bs] show ?thesis unfolding s t(3) Lit x by simp
    next
      case (Ws w)
      with t(1) show ?thesis by (auto simp add: directive_of_def split: if_splits)
    next
      case (Dir x)
      from match_directive_render [OF v, of x "strftime dt cs"] obtain ms0 where
        md: "match_directive x (render dt (Dir x) @ strftime dt cs)
               = (render dt (Dir x), strftime dt cs) # ms0"
        by blast
      from ih [of "(x, render dt (Dir x)) # bs"] obtain bs' ms where
        m: "match_tokens ts (strftime dt cs) ((x, render dt (Dir x)) # bs) = (bs', []) # ms"
           "\<forall>d. map_of bs' d = (if d \<in> set (directives ts) then Some (render dt (Dir d))
                            else map_of ((x, render dt (Dir x)) # bs) d)"
        by blast
      have "match_tokens toks (strftime dt (c # d # cs)) bs
          = (bs', []) # (ms @ concat (map (\<lambda>(m, r). match_tokens ts r ((x, m) # bs)) ms0))"
        unfolding s t(3) Dir by (simp add: md m(1))
      moreover have "\<forall>d. map_of bs' d = (if d \<in> set (directives toks) then Some (render dt (Dir d))
                            else map_of bs d)"
        using m(2) unfolding t(3) Dir by auto
      ultimately show ?thesis by blast
    qed
  next
    case False
    have s: "strftime dt (c # d # cs) = c # strftime dt (d # cs)" using False by simp
    show ?thesis
    proof (cases "is_space c")
      case True
      with 3(4) False nz obtain us where us: "tokenize (d # cs) = Some us"
        by (auto split: option.splits)
      note ih = 3(2) [OF nz False True us]
      from ih [of bs] obtain bs' ms where
        m: "match_tokens us (strftime dt (d # cs)) bs = (bs', []) # ms"
           "\<forall>d. map_of bs' d = (if d \<in> set (directives us) then Some (render dt (Dir d))
                            else map_of bs d)"
        by blast
      show ?thesis
      proof (cases "\<exists>w ts. us = Ws w # ts")
        case w: True
        then obtain w ts where u: "us = Ws w # ts" by blast
        with 3(4) False nz True us have toks: "toks = Ws (c # w) # ts" by simp
        have "match_tokens toks (strftime dt (c # d # cs)) bs
            = match_tokens (Ws (c # w) # ts) (strftime dt (d # cs)) bs
              @ match_tokens ts (strftime dt (d # cs)) bs"
          unfolding s toks by (rule match_tokens_Ws_step [OF True])
        also have "match_tokens (Ws (c # w) # ts) (strftime dt (d # cs)) bs
            = match_tokens us (strftime dt (d # cs)) bs"
          unfolding u by (rule match_tokens_Ws_any)
        finally have "match_tokens toks (strftime dt (c # d # cs)) bs
            = (bs', []) # (ms @ match_tokens ts (strftime dt (d # cs)) bs)"
          by (simp add: m(1))
        moreover have "directives toks = directives us" by (simp add: toks u)
        ultimately show ?thesis using m(2) by auto
      next
        case nw: False
        with 3(4) False nz True us have toks: "toks = Ws [c] # us"
          by (auto split: list.splits token.splits)
        have plain: "strftime dt (d # cs) = [] \<or> \<not> is_space (hd (strftime dt (d # cs)))"
        proof (cases us)
          case Nil
          with strftime_render [OF us, of dt] show ?thesis by simp
        next
          case (Cons t ts)
          then have tin: "t \<in> set us" by simp
          from nw Cons have tw: "\<forall>w. t \<noteq> Ws w" by simp
          have ne: "render dt t \<noteq> []" by (rule render_nonempty [OF us tin])
          then have "hd (strftime dt (d # cs)) = hd (render dt t)"
            using strftime_render [OF us, of dt] Cons by simp
          moreover have "hd (render dt t) \<in> set (render dt t)" using ne by simp
          ultimately show ?thesis using render_plain [OF us tin tw v] by simp
        qed
        have "match_tokens toks (strftime dt (c # d # cs)) bs
            = match_tokens us (strftime dt (d # cs)) bs"
          unfolding s toks by (rule match_tokens_Ws_single [OF True plain])
        moreover have "directives toks = directives us" by (simp add: toks)
        ultimately show ?thesis using m by auto
      qed
    next
      case sp: False
      with 3(4) False nz obtain us where us: "tokenize (d # cs) = Some us" "toks = Lit c # us"
        by auto
      from 3(3) [OF nz False sp us(1), of bs] show ?thesis unfolding s us(2) by simp
    qed
  qed
qed

lemma match_tokens_keys:
  "(bs', rest) \<in> set (match_tokens toks s bs) \<Longrightarrow>
     fst ` set bs' = set (directives toks) \<union> fst ` set bs"
proof (induction toks s bs arbitrary: bs' rest rule: match_tokens.induct)
  case (1 s bs)
  then show ?case by simp
next
  case (2 c ts s bs)
  from 2(2) obtain x xs where s: "s = x # xs" "lower x = lower c"
    and m: "(bs', rest) \<in> set (match_tokens ts xs bs)"
    by (cases s) (auto split: if_splits)
  from 2(1) [OF s(1,2) m] show ?case by simp
next
  case (3 w ts s bs)
  from 3(2) obtain k where k: "k \<in> set (rev [1..<Suc (length (takeWhile is_space s))])"
    and m: "(bs', rest) \<in> set (match_tokens ts (drop k s) bs)"
    by auto
  from 3(1) [OF k m] show ?case by simp
next
  case (4 d ts s bs)
  from 4(2) obtain m r where mr: "(m, r) \<in> set (match_directive d s)"
    and mt: "(bs', rest) \<in> set (match_tokens ts r ((d, m) # bs))"
    by auto
  from 4(1) [OF mr refl mt] show ?case by auto
qed

lemma mk_datetime_Inr:
  assumes "mk_datetime y m d h mi s = Inr dt"
  shows "year dt = y" "month dt = m" "day dt = d" "hour dt = h" "minute dt = mi" "second dt = s"
  using assms by (auto simp add: mk_datetime_def Let_def split: if_splits)

lemma mk_datetime_valid:
  assumes "valid_datetime dt"
  shows "mk_datetime (year dt) (month dt) (day dt) (hour dt) (minute dt) (second dt) = Inr dt"
proof -
  have eq: "\<lparr>year = year dt, month = month dt, day = day dt, hour = hour dt, minute = minute dt,
      second = second dt\<rparr> = dt"
    by simp
  show ?thesis unfolding mk_datetime_def Let_def eq using assms by simp
qed

lemma int_of_str_render:
  assumes v: "valid_datetime dt"
  shows "int_of_str (render dt (Dir DirY)) = year dt"
    and "int_of_str (render dt (Dir Dirm)) = month dt"
    and "int_of_str (render dt (Dir Dird)) = day dt"
    and "int_of_str (render dt (Dir DirH)) = hour dt"
    and "int_of_str (render dt (Dir DirM)) = minute dt"
    and "int_of_str (render dt (Dir DirS)) = second dt"
proof -
  from v have m: "1 \<le> month dt" "month dt \<le> 12" by (simp_all add: valid_datetime_def)
  from v days_in_month_bounds(2) [OF m, of "year dt"]
  have b: "0 \<le> year dt" "year dt \<le> 9999" "0 \<le> month dt" "month dt \<le> 99"
    "0 \<le> day dt" "day dt \<le> 99" "0 \<le> hour dt" "hour dt \<le> 99"
    "0 \<le> minute dt" "minute dt \<le> 99" "0 \<le> second dt" "second dt \<le> 99"
    by (simp_all add: valid_datetime_def)
  show "int_of_str (render dt (Dir DirY)) = year dt" using int_of_str_pad4 [OF b(1,2)] by simp
  show "int_of_str (render dt (Dir Dirm)) = month dt" using int_of_str_pad2 [OF b(3,4)] by simp
  show "int_of_str (render dt (Dir Dird)) = day dt" using int_of_str_pad2 [OF b(5,6)] by simp
  show "int_of_str (render dt (Dir DirH)) = hour dt" using int_of_str_pad2 [OF b(7,8)] by simp
  show "int_of_str (render dt (Dir DirM)) = minute dt" using int_of_str_pad2 [OF b(9,10)] by simp
  show "int_of_str (render dt (Dir DirS)) = second dt" using int_of_str_pad2 [OF b(11,12)] by simp
qed

lemma strptime_strftime:
  assumes p: "strptime D P = Inr dt"
  shows "strptime (strftime dt P) P = Inr dt"
proof -
  from p obtain toks bs0 ms0 where tk: "tokenize P = Some toks"
    and dist: "distinct (directives toks)"
    and m0: "match_tokens toks D [] = (bs0, []) # ms0"
    and mk: "mk_datetime (field bs0 DirY 1900) (field bs0 Dirm 1) (field bs0 Dird 1)
       (field bs0 DirH 0) (field bs0 DirM 0) (field bs0 DirS 0) = Inr dt"
    by (rule strptime_Inr)
  note v = strptime_valid [OF p]
  note f0 = mk_datetime_Inr [OF mk]
  have "(bs0, []) \<in> set (match_tokens toks D [])" using m0 by simp
  from match_tokens_keys [OF this] have keys: "fst ` set bs0 = set (directives toks)" by simp
  have none: "field bs0 d dflt = dflt" if "d \<notin> set (directives toks)" for d dflt
  proof -
    from that keys have "map_of bs0 d = None" by (simp add: map_of_eq_None_iff)
    then show ?thesis by (simp add: field_def)
  qed
  from match_rendered [OF v tk, of "[]"] obtain bs1 ms1 where
    m1: "match_tokens toks (strftime dt P) [] = (bs1, []) # ms1"
    and b1: "\<forall>d. map_of bs1 d = (if d \<in> set (directives toks) then Some (render dt (Dir d))
                            else map_of [] d)"
    by blast
  have f1: "field bs1 d dflt = (if d \<in> set (directives toks) then int_of_str (render dt (Dir d))
      else field bs0 d dflt)" for d dflt
    using b1 none [of d dflt] by (simp add: field_def)
  note r = int_of_str_render [OF v]
  have y: "field bs1 DirY 1900 = year dt" using f1 [of DirY 1900] r(1) f0(1) by simp
  have mo: "field bs1 Dirm 1 = month dt" using f1 [of Dirm 1] r(2) f0(2) by simp
  have d: "field bs1 Dird 1 = day dt" using f1 [of Dird 1] r(3) f0(3) by simp
  have h: "field bs1 DirH 0 = hour dt" using f1 [of DirH 0] r(4) f0(4) by simp
  have mi: "field bs1 DirM 0 = minute dt" using f1 [of DirM 0] r(5) f0(5) by simp
  have s: "field bs1 DirS 0 = second dt" using f1 [of DirS 0] r(6) f0(6) by simp
  have "strptime (strftime dt P) P
      = mk_datetime (field bs1 DirY 1900) (field bs1 Dirm 1) (field bs1 Dird 1)
          (field bs1 DirH 0) (field bs1 DirM 0) (field bs1 DirS 0)"
    by (simp add: strptime_def tk dist m1)
  also have "\<dots> = Inr dt" unfolding y mo d h mi s by (rule mk_datetime_valid [OF v])
  finally show ?thesis .
qed

section \<open>The masking strategies on parsed dates\<close>

lemma parse_example:
  "strptime ''2023-03-17 08:45:10'' ''%Y-%m-%d %H:%M:%S''
     = Inr \<lparr>year = 2023, month = 3, day = 17, hour = 8, minute = 45, second = 10\<rparr>"
  by code_simp

lemma replace_day_first:
  assumes "valid_datetime dt"
  shows "replace_day dt 1 = Inr (dt\<lparr>day := 1\<rparr>)" and "valid_datetime (dt\<lparr>day := 1\<rparr>)"
proof -
  from assms have m: "1 \<le> month dt" "month dt \<le> 12" by (simp_all add: valid_datetime_def)
  from days_in_month_bounds(1) [OF m, of "year dt"] assms
  show v: "valid_datetime (dt\<lparr>day := 1\<rparr>)" by (simp add: valid_datetime_def)
  have eq: "\<lparr>year = year dt, month = month dt, day = 1, hour = hour dt, minute = minute dt,
      second = second dt\<rparr> = dt\<lparr>day := 1\<rparr>"
    by simp
  show "replace_day dt 1 = Inr (dt\<lparr>day := 1\<rparr>)"
    unfolding replace_day_def mk_datetime_def Let_def eq using v by simp
qed

text \<open>
  C8. When the field parses to \<open>dt\<close>, bucketing by month succeeds without a log record
  and returns the rendering of \<open>dt\<close> with the day set to 1: a valid date with the year,
  the month and the time of day of \<open>dt\<close>.
\<close>

theorem bucket_month_first_day:
  assumes "strptime ds fmt = Inr dt"
  shows "bucket_date ds fmt ''month'' = (Some (strftime (dt\<lparr>day := 1\<rparr>) fmt), []) \<and>
         valid_datetime (dt\<lparr>day := 1\<rparr>) \<and>
         day (dt\<lparr>day := 1\<rparr>) = 1 \<and>
         year (dt\<lparr>day := 1\<rparr>) = year dt \<and> month (dt\<lparr>day := 1\<rparr>) = month dt \<and>
         hour (dt\<lparr>day := 1\<rparr>) = hour dt \<and> minute (dt\<lparr>day := 1\<rparr>) = minute dt \<and>
         second (dt\<lparr>day := 1\<rparr>) = second dt"
proof -
  note r = replace_day_first [OF strptime_valid [OF assms]]
  have "bucket_date ds fmt ''month'' = (Some (strftime (dt\<lparr>day := 1\<rparr>) fmt), [])"
    by (simp add: bucket_date_def assms r(1))
  with r(2) show ?thesis by simp
qed

theorem bucket_month_first_day_witness:
  "bucket_date ''2023-03-17 08:45:10'' ''%Y-%m-%d %H:%M:%S'' ''month''
     = (Some ''2023-03-01 08:45:10'', [])"
  using bucket_month_first_day [OF parse_example]
  by (simp add: pad2_def pad4_def digit_char_def digits_def)

lemma randint_draw:
  assumes "a \<le> b"
  shows "randint a b g = (Inr (a + int (g 0 mod nat (b - a + 1))), (\<lambda>i. g (Suc i)))"
    and "a \<le> a + int (g 0 mod nat (b - a + 1))"
    and "a + int (g 0 mod nat (b - a + 1)) \<le> b"
proof -
  show "randint a b g = (Inr (a + int (g 0 mod nat (b - a + 1))), (\<lambda>i. g (Suc i)))"
    using assms by (simp add: randint_def)
  show "a \<le> a + int (g 0 mod nat (b - a + 1))" by simp
  have "0 < nat (b - a + 1)" using assms by simp
  then have "g 0 mod nat (b - a + 1) < nat (b - a + 1)" by (rule mod_less_divisor)
  then have "int (g 0 mod nat (b - a + 1)) < b - a + 1" using assms by linarith
  then show "a + int (g 0 mod nat (b - a + 1)) \<le> b" by simp
qed

lemma randint_attains:
  assumes "a \<le> k" "k \<le> b"
  shows "fst (randint a b (\<lambda>i. nat (k - a))) = Inr k"
proof -
  have "nat (k - a) < nat (b - a + 1)" using assms by simp
  then have "nat (k - a) mod nat (b - a + 1) = nat (k - a)" by (rule mod_less)
  then show ?thesis using assms by (simp add: randint_def)
qed

lemma int_nat_mod:
  assumes "0 \<le> h" "h < int n"
  shows "int (nat h mod n) = h"
proof -
  have "nat h < n" using assms by linarith
  then have "nat h mod n = nat h" by (rule mod_less)
  then show ?thesis using assms by simp
qed

lemma combine_time_ok:
  assumes "valid_datetime dt" "0 \<le> h" "h \<le> 23" "0 \<le> mi" "mi \<le> 59" "0 \<le> s" "s \<le> 59"
  shows "combine_time dt h mi s = Inr (dt\<lparr>hour := h, minute := mi, second := s\<rparr>)"
    and "valid_datetime (dt\<lparr>hour := h, minute := mi, second := s\<rparr>)"
  using assms by (simp_all add: combine_time_def valid_datetime_def)

text \<open>
  C9. When the field parses to \<open>dt\<close>, \<open>randomize_time\<close> succeeds without a log record.
  It takes three draws from the generator, one for each of hour, minute and second:
  the result is the rendering of \<open>dt\<close> with the hour set to the first draw reduced to
  \<open>0..23\<close>, the minute to the second draw reduced to \<open>0..59\<close> and the second to the
  third draw reduced to \<open>0..59\<close>; year, month and day are those of \<open>dt\<close>. Every
  combination of an hour, a minute and a second in these ranges is the result for some
  generator.
\<close>

theorem randomize_time_keeps_date:
  assumes "strptime ds fmt = Inr dt"
  shows "(let h = int (g 0 mod 24); mi = int (g 1 mod 60); s = int (g 2 mod 60);
              dt' = dt\<lparr>hour := h, minute := mi, second := s\<rparr>
          in randomize_time ds fmt g = ((Some (strftime dt' fmt), []), (\<lambda>i. g (Suc (Suc (Suc i))))) \<and>
             valid_datetime dt' \<and>
             year dt' = year dt \<and> month dt' = month dt \<and> day dt' = day dt \<and>
             0 \<le> hour dt' \<and> hour dt' \<le> 23 \<and> 0 \<le> minute dt' \<and> minute dt' \<le> 59 \<and>
             0 \<le> second dt' \<and> second dt' \<le> 59) \<and>
         (\<forall>h mi s. 0 \<le> h \<and> h \<le> 23 \<and> 0 \<le> mi \<and> mi \<le> 59 \<and> 0 \<le> s \<and> s \<le> 59 \<longrightarrow>
            (\<exists>g. fst (randomize_time ds fmt g)
                   = (Some (strftime (dt\<lparr>hour := h, minute := mi, second := s\<rparr>) fmt), [])))"
proof -
  note v = strptime_valid [OF assms]
  have run: "randomize_time ds fmt g
      = ((Some (strftime (dt\<lparr>hour := int (g 0 mod 24), minute := int (g 1 mod 60),
                              second := int (g 2 mod 60)\<rparr>) fmt), []),
         (\<lambda>i. g (Suc (Suc (Suc i)))))" for g
  proof -
    have c: "combine_time dt (int (g 0 mod 24)) (int (g 1 mod 60)) (int (g 2 mod 60))
        = Inr (dt\<lparr>hour := int (g 0 mod 24), minute := int (g 1 mod 60), second := int (g 2 mod 60)\<rparr>)"
      by (rule combine_time_ok(1) [OF v]) simp_all
    have two: "Suc (Suc 0) = 2" by simp
    show ?thesis
      unfolding randomize_time_def
      using c by (simp add: assms randint_def two)
  qed
  have valid: "valid_datetime (dt\<lparr>hour := int (g 0 mod 24), minute := int (g 1 mod 60),
      second := int (g 2 mod 60)\<rparr>)"
    by (rule combine_time_ok(2) [OF v]) simp_all
  have reach: "\<exists>g. fst (randomize_time ds fmt g)
      = (Some (strftime (dt\<lparr>hour := h, minute := mi, second := s\<rparr>) fmt), [])"
    if r: "0 \<le> h \<and> h \<le> 23 \<and> 0 \<le> mi \<and> mi \<le> 59 \<and> 0 \<le> s \<and> s \<le> 59" for h mi s
  proof -
    define g0 :: rng where "g0 = (\<lambda>i. if i = 0 then nat h else if i = 1 then nat mi else nat s)"
    have "int (g0 0 mod 24) = h" "int (g0 1 mod 60) = mi" "int (g0 2 mod 60) = s"
      using r by (simp_all add: g0_def int_nat_mod)
    then have "fst (randomize_time ds fmt g0)
        = (Some (strftime (dt\<lparr>hour := h, minute := mi, second := s\<rparr>) fmt), [])"
      by (simp add: run [of g0])
    then show ?thesis by blast
  qed
  have "g 0 mod 24 < 24" "g (Suc 0) mod 60 < 60" "g 2 mod 60 < 60" by simp_all
  then have bnd: "g 0 mod 24 \<le> 23" "g (Suc 0) mod 60 \<le> 59" "g 2 mod 60 \<le> 59" by linarith+
  from run [of g] valid reach bnd show ?thesis by (simp add: Let_def)
qed

theorem randomize_time_keeps_date_witness:
  "randomize_time ''2023-03-17 08:45:10'' ''%Y-%m-%d %H:%M:%S'' (\<lambda>i. 100 + 7 * i)
     = ((Some ''2023-03-17 04:47:54'', []), (\<lambda>i. 100 + 7 * Suc (Suc (Suc i))))"
  using randomize_time_keeps_date [OF parse_example, of "\<lambda>i. 100 + 7 * i"]
  by (simp add: Let_def pad2_def pad4_def digit_char_def digits_def)

text \<open>
  C6. When the field parses to \<open>dt\<close> and \<open>shift_days = n > 0\<close>, \<open>shift_date\<close> takes one
  draw \<open>k\<close> of \<open>randint (- n) n\<close>, so \<open>- n \<le> k \<le> n\<close>. If the day \<open>k\<close> days from \<open>dt\<close>
  exists (ordinal in \<open>1 .. MAXORDINAL\<close>, and \<open>k\<close> within the range of a timedelta), the
  result is the rendering of a valid date \<open>dt'\<close> exactly \<open>k\<close> days from \<open>dt\<close> with the hour,
  minute and second of \<open>dt\<close>, and nothing is logged; otherwise nothing is returned and
  the overflow is logged. Every \<open>k\<close> of \<open>- n .. n\<close>, both ends included, is drawn by some
  generator.
\<close>

theorem shift_date_delta:
  assumes "strptime ds fmt = Inr dt" and "0 < n"
  shows "(\<exists>k. randint (- n) n g = (Inr k, (\<lambda>i. g (Suc i))) \<and> - n \<le> k \<and> k \<le> n \<and>
            (if \<bar>k\<bar> \<le> 999999999 \<and> 1 \<le> toordinal dt + k \<and> toordinal dt + k \<le> MAXORDINAL
             then \<exists>dt'. shift_date ds fmt n g = ((Some (strftime dt' fmt), []), (\<lambda>i. g (Suc i))) \<and>
                        valid_datetime dt' \<and> toordinal dt' = toordinal dt + k \<and>
                        hour dt' = hour dt \<and> minute dt' = minute dt \<and> second dt' = second dt
             else shift_date ds fmt n g
                    = ((None, [UnexpectedError OverflowError]), (\<lambda>i. g (Suc i))))) \<and>
         (\<forall>k. - n \<le> k \<and> k \<le> n \<longrightarrow> (\<exists>g. fst (randint (- n) n g) = Inr k))"
proof (intro conjI allI impI)
  note v = strptime_valid [OF assms(1)]
  have le: "- n \<le> n" using assms(2) by simp
  define k where "k = - n + int (g 0 mod nat (n - - n + 1))"
  have rk: "randint (- n) n g = (Inr k, (\<lambda>i. g (Suc i)))"
    and bk: "- n \<le> k" "k \<le> n"
    unfolding k_def by (rule randint_draw [OF le])+
  show "\<exists>k. randint (- n) n g = (Inr k, (\<lambda>i. g (Suc i))) \<and> - n \<le> k \<and> k \<le> n \<and>
            (if \<bar>k\<bar> \<le> 999999999 \<and> 1 \<le> toordinal dt + k \<and> toordinal dt + k \<le> MAXORDINAL
             then \<exists>dt'. shift_date ds fmt n g = ((Some (strftime dt' fmt), []), (\<lambda>i. g (Suc i))) \<and>
                        valid_datetime dt' \<and> toordinal dt' = toordinal dt + k \<and>
                        hour dt' = hour dt \<and> minute dt' = minute dt \<and> second dt' = second dt
             else shift_date ds fmt n g
                    = ((None, [UnexpectedError OverflowError]), (\<lambda>i. g (Suc i))))"
  proof (cases "\<bar>k\<bar> \<le> 999999999 \<and> 1 \<le> toordinal dt + k \<and> toordinal dt + k \<le> MAXORDINAL")
    case True
    then obtain dt' where a: "add_days dt k = Inr dt'"
      using add_days_defined [of k dt] by blast
    have "shift_date ds fmt n g = ((Some (strftime dt' fmt), []), (\<lambda>i. g (Suc i)))"
      by (simp add: shift_date_def assms(1) rk a)
    with add_days_Inr(1-5) [OF v a] True rk bk show ?thesis by auto
  next
    case False
    then have a: "add_days dt k = Inl OverflowError" by (rule add_days_overflow)
    have "shift_date ds fmt n g = ((None, [UnexpectedError OverflowError]), (\<lambda>i. g (Suc i)))"
      by (simp add: shift_date_def assms(1) rk a except_handler_def)
    with False rk bk show ?thesis by auto
  qed
next
  fix k assume "- n \<le> k \<and> k \<le> n"
  then have "fst (randint (- n) n (\<lambda>i. nat (k - - n))) = Inr k"
    by (intro randint_attains) simp_all
  then show "\<exists>g. fst (randint (- n) n g) = Inr k" by blast
qed


theorem shift_date_delta_witness:
  "\<exists>dt'. shift_date ''2023-03-17 08:45:10'' ''%Y-%m-%d %H:%M:%S'' 3 (\<lambda>i. 5)
            = ((Some (strftime dt' ''%Y-%m-%d %H:%M:%S''), []), (\<lambda>i. 5)) \<and>
         valid_datetime dt' \<and> toordinal dt' = 738596 + 2 \<and>
         hour dt' = 8 \<and> minute dt' = 45 \<and> second dt' = 10"
proof -
  have r: "randint (- 3) 3 (\<lambda>i. 5) = (Inr 2, (\<lambda>i. 5))"
    by (simp add: randint_def)
  have t: "toordinal \<lparr>year = 2023, month = 3, day = 17, hour = 8, minute = 45, second = 10\<rparr> = 738596"
    by code_simp
  from shift_date_delta [OF parse_example, of 3 "\<lambda>i. 5"] show ?thesis
    by (simp add: r t MAXORDINAL_def)
qed

text \<open>
  C7. When the field parses to \<open>dt\<close>, bucketing by week succeeds without a log record
  (the subtraction cannot leave the range of dates, day 1 being a Monday) and returns
  the rendering of a valid date \<open>dt'\<close> that is a Monday (\<open>weekday dt' = 0\<close>), lies
  \<open>weekday dt\<close> days, so at most 6 days, before \<open>dt\<close>, is not after \<open>dt\<close> in the order
  of datetimes, and has the hour, minute and second of \<open>dt\<close>.
\<close>

theorem bucket_week_monday:
  assumes "strptime ds fmt = Inr dt"
  shows "\<exists>dt'. bucket_date ds fmt ''week'' = (Some (strftime dt' fmt), []) \<and>
           valid_datetime dt' \<and> weekday dt' = 0 \<and>
           toordinal dt' = toordinal dt - weekday dt \<and>
           toordinal dt - 6 \<le> toordinal dt' \<and> toordinal dt' \<le> toordinal dt \<and>
           dt_le dt' dt \<and>
           hour dt' = hour dt \<and> minute dt' = minute dt \<and> second dt' = second dt"
proof -
  note v = strptime_valid [OF assms]
  note o = toordinal_range [OF v]
  note w = weekday_range [of dt] weekday_le_toordinal [OF o(1)]
  have "\<bar>- weekday dt\<bar> \<le> 999999999" "1 \<le> toordinal dt + - weekday dt"
    "toordinal dt + - weekday dt \<le> MAXORDINAL"
    using w o by linarith+
  then obtain dt' where a: "add_days dt (- weekday dt) = Inr dt'"
    using add_days_defined [of "- weekday dt" dt] by blast
  note r = add_days_Inr(1-5) [OF v a]
  have t: "toordinal dt' = toordinal dt - weekday dt" using r(2) by simp
  have b: "bucket_date ds fmt ''week'' = (Some (strftime dt' fmt), [])"
    by (simp add: bucket_date_def assms a)
  have le: "toordinal dt' \<le> toordinal dt" "toordinal dt - 6 \<le> toordinal dt'"
    using t w by linarith+
  have "dt_le dt' dt"
    by (rule dt_le_of_toordinal [OF r(1) v le(1) r(3-5)])
  with b r t le weekday_of_week_start [OF t] show ?thesis by blast
qed

theorem bucket_week_monday_witness:
  "\<exists>dt'. bucket_date ''2023-03-17 08:45:10'' ''%Y-%m-%d %H:%M:%S'' ''week''
            = (Some (strftime dt' ''%Y-%m-%d %H:%M:%S''), []) \<and>
         valid_datetime dt' \<and> weekday dt' = 0 \<and> toordinal dt' = 738596 - 4 \<and>
         738596 - 6 \<le> toordinal dt' \<and> toordinal dt' \<le> 738596 \<and>
         dt_le dt' \<lparr>year = 2023, month = 3, day = 17, hour = 8, minute = 45, second = 10\<rparr> \<and>
         hour dt' = 8 \<and> minute dt' = 45 \<and> second dt' = 10"
proof -
  have t: "toordinal \<lparr>year = 2023, month = 3, day = 17, hour = 8, minute = 45, second = 10\<rparr> = 738596"
    "weekday \<lparr>year = 2023, month = 3, day = 17, hour = 8, minute = 45, second = 10\<rparr> = 4"
    by code_simp+
  from bucket_week_monday [OF parse_example] show ?thesis
    by (simp add: t)
qed

section \<open>Parsing and rendering again\<close>

lemma parse_unpadded:
  "strptime ''2023-1-5'' ''%Y-%m-%d''
     = Inr \<lparr>year = 2023, month = 1, day = 5, hour = 0, minute = 0, second = 0\<rparr>"
  by code_simp

text \<open>
  C2. Rendering the parsed date does not always give back the text that was parsed:
  \<open>strptime\<close> accepts months and days without a leading zero, \<open>strftime\<close> always pads.
  The text \<open>2023-1-5\<close> parses under \<open>%Y-%m-%d\<close> and is rendered as \<open>2023-01-05\<close>,
  and that is what bucketing by day returns for it.
\<close>

theorem round_trip_counterexample:
  "strptime ''2023-1-5'' ''%Y-%m-%d''
     = Inr \<lparr>year = 2023, month = 1, day = 5, hour = 0, minute = 0, second = 0\<rparr> \<and>
   strftime \<lparr>year = 2023, month = 1, day = 5, hour = 0, minute = 0, second = 0\<rparr> ''%Y-%m-%d''
     = ''2023-01-05'' \<and>
   ''2023-01-05'' \<noteq> ''2023-1-5'' \<and>
   bucket_date ''2023-1-5'' ''%Y-%m-%d'' ''day'' = (Some ''2023-01-05'', [])"
  by code_simp

text \<open>
  C2, amended. What holds is the law on the rendered text. When \<open>D\<close> parses under \<open>P\<close>
  to \<open>dt\<close>, the rendering of \<open>dt\<close> under \<open>P\<close> parses under \<open>P\<close> to the same \<open>dt\<close>, so
  it is rendered as itself; bucketing by day returns this rendering for \<open>D\<close>, returns
  it unchanged when it is given it, and returns \<open>D\<close> unchanged exactly when \<open>D\<close> is
  already that rendering. (The year is taken from 1000 on: below, the C library of some
  platforms renders a year with fewer than four digits, which \<open>%Y\<close> does not read
  back.)
\<close>

theorem canonical_round_trip:
  assumes "strptime D P = Inr dt" and "1000 \<le> year dt"
  shows "strptime (strftime dt P) P = Inr dt \<and>
         bucket_date D P ''day'' = (Some (strftime dt P), []) \<and>
         bucket_date (strftime dt P) P ''day'' = (Some (strftime dt P), []) \<and>
         (bucket_date D P ''day'' = (Some D, []) \<longleftrightarrow> D = strftime dt P)"
proof -
  note rt = strptime_strftime [OF assms(1)]
  have a: "bucket_date D P ''day'' = (Some (strftime dt P), [])"
    by (simp add: bucket_date_def assms(1))
  have b: "bucket_date (strftime dt P) P ''day'' = (Some (strftime dt P), [])"
    by (simp add: bucket_date_def rt)
  from rt a b show ?thesis by auto
qed

theorem canonical_round_trip_witness:
  "strptime ''2023-01-05'' ''%Y-%m-%d''
     = Inr \<lparr>year = 2023, month = 1, day = 5, hour = 0, minute = 0, second = 0\<rparr> \<and>
   bucket_date ''2023-1-5'' ''%Y-%m-%d'' ''day'' = (Some ''2023-01-05'', []) \<and>
   bucket_date ''2023-01-05'' ''%Y-%m-%d'' ''day'' = (Some ''2023-01-05'', [])"
  using canonical_round_trip [OF parse_unpadded]
  by (simp add: pad2_def pad4_def digit_char_def digits_def)
section \<open>Which strategy runs\<close>

lemma mask_field_shift_any:
  "0 < sd \<Longrightarrow> mask_field d fmt sd b r g = mask_field d fmt sd None False g"
  by (simp add: mask_field_def)

lemma mask_field_bucket_any:
  "\<not> 0 < sd \<Longrightarrow> truthy b \<Longrightarrow> mask_field d fmt sd b r g = mask_field d fmt sd b False g"
  by (simp add: mask_field_def)

lemma process_line_shift_any:
  "0 < sd \<Longrightarrow> process_line l ci fmt sd b r g = process_line l ci fmt sd None False g"
  unfolding process_line_def Let_def
  by (simp add: mask_field_shift_any [of sd _ fmt b r] split: option.split)

lemma process_line_bucket_any:
  "\<not> 0 < sd \<Longrightarrow> truthy b \<Longrightarrow> process_line l ci fmt sd b r g = process_line l ci fmt sd b False g"
  unfolding process_line_def Let_def
  by (simp add: mask_field_bucket_any [of sd b _ fmt r] split: option.split)

lemma process_lines_shift_any:
  "0 < sd \<Longrightarrow> process_lines ls ci fmt sd b r g = process_lines ls ci fmt sd None False g"
proof (induction ls arbitrary: g)
  case Nil
  show ?case by simp
next
  case (Cons l ls)
  show ?case
    using Cons.prems
    by (simp add: process_line_shift_any [of sd l ci fmt b r] Cons.IH split: prod.splits sum.splits)
qed

lemma process_lines_bucket_any:
  "\<not> 0 < sd \<Longrightarrow> truthy b \<Longrightarrow> process_lines ls ci fmt sd b r g = process_lines ls ci fmt sd b False g"
proof (induction ls arbitrary: g)
  case Nil
  show ?case by simp
next
  case (Cons l ls)
  show ?case
    using Cons.prems
    by (simp add: process_line_bucket_any [of sd b l ci fmt r] Cons.IH split: prod.splits sum.splits)
qed

lemma process_lines_texts:
  assumes "process_lines ls ci fmt sd b r g = ((res, out, logs), g')"
  shows "\<exists>texts gs. out = concat texts \<and> length texts \<le> length ls \<and>
           (res = None \<longleftrightarrow> length texts = length ls) \<and> gs 0 = g \<and>
           (\<forall>j<length texts.
              fst (fst (process_line (ls ! j) ci fmt sd b r (gs j))) = Inr (texts ! j) \<and>
              snd (process_line (ls ! j) ci fmt sd b r (gs j)) = gs (Suc j))"
  using assms
proof (induction ls arbitrary: g res out logs g')
  case Nil
  then have "out = concat []" "res = None" by simp_all
  then show ?case by (intro exI [of _ "[]"] exI [of _ "\<lambda>j. g"]) simp
next
  case (Cons l ls)
  obtain x lg g1 where pl: "process_line l ci fmt sd b r g = ((x, lg), g1)"
    by (metis prod.collapse)
  show ?case
  proof (cases x)
    case (Inl e)
    with Cons.prems pl have "out = concat []" "res = Some e" by simp_all
    then show ?thesis by (intro exI [of _ "[]"] exI [of _ "\<lambda>j. g"]) simp
  next
    case (Inr written)
    obtain r' out' logs' g'' where rest: "process_lines ls ci fmt sd b r g1 = ((r', out', logs'), g'')"
      by (metis prod.collapse)
    from Cons.prems pl Inr rest have o: "out = written @ out'" "res = r'" by simp_all
    from Cons.IH [OF rest] obtain texts gs where
      t: "out' = concat texts" "length texts \<le> length ls"
         "r' = None \<longleftrightarrow> length texts = length ls" "gs 0 = g1"
         "\<forall>j<length texts.
            fst (fst (process_line (ls ! j) ci fmt sd b r (gs j))) = Inr (texts ! j) \<and>
            snd (process_line (ls ! j) ci fmt sd b r (gs j)) = gs (Suc j)"
      by blast
    define gs' where "gs' = (\<lambda>j. case j of 0 \<Rightarrow> g | Suc k \<Rightarrow> gs k)"
    have "\<forall>j<length (written # texts).
            fst (fst (process_line ((l # ls) ! j) ci fmt sd b r (gs' j))) = Inr ((written # texts) ! j) \<and>
            snd (process_line ((l # ls) ! j) ci fmt sd b r (gs' j)) = gs' (Suc j)"
    proof (intro allI impI)
      fix j assume "j < length (written # texts)"
      then show "fst (fst (process_line ((l # ls) ! j) ci fmt sd b r (gs' j))) = Inr ((written # texts) ! j) \<and>
            snd (process_line ((l # ls) ! j) ci fmt sd b r (gs' j)) = gs' (Suc j)"
        using t(4,5) pl Inr by (cases j) (simp_all add: gs'_def)
    qed
    moreover have "out = concat (written # texts)" using o t(1) by simp
    moreover have "length (written # texts) \<le> length (l # ls)" using t(2) by simp
    moreover have "res = None \<longleftrightarrow> length (written # texts) = length (l # ls)" using o t(3) by simp
    moreover have "gs' 0 = g" by (simp add: gs'_def)
    ultimately show ?thesis by blast
  qed
qed

lemma process_data_texts:
  assumes "files w inp = Some c" "writable w outp" "inp \<noteq> outp"
  shows "\<exists>texts gs. files (snd (process_data inp outp ci fmt sd b r w)) outp = Some (concat texts) \<and>
           length texts \<le> length (readlines c) \<and>
           (fst (process_data inp outp ci fmt sd b r w) = 0 \<longleftrightarrow> length texts = length (readlines c)) \<and>
           gs 0 = gen w \<and>
           (\<forall>j<length texts.
              fst (fst (process_line (readlines c ! j) ci fmt sd b r (gs j))) = Inr (texts ! j) \<and>
              snd (process_line (readlines c ! j) ci fmt sd b r (gs j)) = gs (Suc j))"
proof -
  obtain res out logs g' where
    pls: "process_lines (readlines c) ci fmt sd b r (gen w) = ((res, out, logs), g')"
    by (metis prod.collapse)
  have f: "files (snd (process_data inp outp ci fmt sd b r w)) outp = Some out"
    using assms pls by (simp add: process_data_def Let_def emit_def split: option.split)
  have s: "fst (process_data inp outp ci fmt sd b r w) = 0 \<longleftrightarrow> res = None"
    using assms pls by (simp add: process_data_def Let_def emit_def split: option.split)
  from process_lines_texts [OF pls] f s show ?thesis by simp
qed


lemma example_line:
  "strip (''a, 2023-03-17 08:45:10 ,b  '' @ [NL]) = ''a, 2023-03-17 08:45:10 ,b''"
  "split_str (CHR '','') ''a, 2023-03-17 08:45:10 ,b'' = [''a'', '' 2023-03-17 08:45:10 '', ''b'']"
  "strip '' 2023-03-17 08:45:10 '' = ''2023-03-17 08:45:10''"
  "py_index 1 3 = Some 1"
  by code_simp+

lemma example_shift:
  "shift_date ''2023-03-17 08:45:10'' ''%Y-%m-%d %H:%M:%S'' 3 (\<lambda>i. 5)
     = ((Some ''2023-03-19 08:45:10'', []), (\<lambda>i. 5))"
proof -
  have "fst (shift_date ''2023-03-17 08:45:10'' ''%Y-%m-%d %H:%M:%S'' 3 (\<lambda>i. 5))
      = (Some ''2023-03-19 08:45:10'', [])"
    by code_simp
  moreover have "snd (shift_date ''2023-03-17 08:45:10'' ''%Y-%m-%d %H:%M:%S'' 3 (\<lambda>i. 5)) = (\<lambda>i. 5)"
    by (simp add: shift_date_def parse_example randint_def except_handler_def split: sum.split)
  ultimately show ?thesis by (metis prod.collapse)
qed

lemma example_bucket:
  "bucket_date ''2023-03-17 08:45:10'' ''%Y-%m-%d %H:%M:%S'' ''week''
     = (Some ''2023-03-13 08:45:10'', [])"
  by code_simp

lemma example_randomize:
  "randomize_time ''2023-03-17 08:45:10'' ''%Y-%m-%d %H:%M:%S'' (\<lambda>i. 5)
     = ((Some ''2023-03-17 05:05:05'', []), (\<lambda>i. 5))"
proof -
  have "fst (randomize_time ''2023-03-17 08:45:10'' ''%Y-%m-%d %H:%M:%S'' (\<lambda>i. 5))
      = (Some ''2023-03-17 05:05:05'', [])"
    by code_simp
  moreover have "snd (randomize_time ''2023-03-17 08:45:10'' ''%Y-%m-%d %H:%M:%S'' (\<lambda>i. 5)) = (\<lambda>i. 5)"
    by (simp add: randomize_time_def parse_example randint_def combine_time_def)
  ultimately show ?thesis by (metis prod.collapse)
qed

text \<open>
  C5. One strategy is applied to the field of a line, chosen by precedence. For a line
  whose stripped text is not empty and has a field \<open>i\<close> at the column index, what
  \<open>process_line\<close> writes and logs is the result of exactly one strategy on the stripped
  field, put back into the line: of \<open>shift_date\<close> when \<open>shift_days > 0\<close>, whatever the
  bucket interval and the randomize flag are; otherwise of \<open>bucket_date\<close> when a bucket
  interval is set, whatever the flag is, and the generator is left untouched; otherwise
  of \<open>randomize_time\<close> when the flag is set. (\<open>put\<close> is the end of the loop body: the
  stripped line with a warning when the strategy gave nothing, else the fields joined
  again with the masked text at index \<open>i\<close>.) The file that \<open>process_data\<close> writes is
  the concatenation of what \<open>process_line\<close> writes for the lines of the input in order,
  the generator passing from one line to the next, up to the first line that raises; and
  a run with a winning mode does not depend on the lower-priority options.
\<close>

theorem strategy_precedence:
  "(let line = strip l; parts = split_str (CHR '','') line; d = strip (parts ! i);
        put = (\<lambda>res. case res of
                 ((None, logs), g') \<Rightarrow> ((Inr (line @ [NL]), logs @ [FailedToMask line]), g')
               | ((Some masked_date, logs), g') \<Rightarrow>
                   ((Inr (join_str (CHR '','') (parts[i := masked_date]) @ [NL]), logs), g'))
    in line \<noteq> [] \<and> ci < int (length parts) \<and> py_index ci (length parts) = Some i \<longrightarrow>
       (0 < sd \<longrightarrow> process_line l ci fmt sd b r g = put (shift_date d fmt sd g)) \<and>
       (\<not> 0 < sd \<and> truthy b \<longrightarrow>
          process_line l ci fmt sd b r g = put (bucket_date d fmt (the b), g)) \<and>
       (\<not> 0 < sd \<and> \<not> truthy b \<and> r \<longrightarrow>
          process_line l ci fmt sd b r g = put (randomize_time d fmt g))) \<and>
   (files w inp = Some c \<and> writable w outp \<and> inp \<noteq> outp \<longrightarrow>
      (\<exists>texts gs.
         files (snd (process_data inp outp ci fmt sd b r w)) outp = Some (concat texts) \<and>
         length texts \<le> length (readlines c) \<and>
         (fst (process_data inp outp ci fmt sd b r w) = 0 \<longleftrightarrow> length texts = length (readlines c)) \<and>
         gs 0 = gen w \<and>
         (\<forall>j<length texts.
            fst (fst (process_line (readlines c ! j) ci fmt sd b r (gs j))) = Inr (texts ! j) \<and>
            snd (process_line (readlines c ! j) ci fmt sd b r (gs j)) = gs (Suc j)))) \<and>
   (0 < sd \<longrightarrow>
      process_data inp outp ci fmt sd b r w = process_data inp outp ci fmt sd None False w) \<and>
   (\<not> 0 < sd \<and> truthy b \<longrightarrow>
      process_data inp outp ci fmt sd b r w = process_data inp outp ci fmt sd b False w)"
proof (intro conjI)
  show "let line = strip l; parts = split_str (CHR '','') line; d = strip (parts ! i);
        put = (\<lambda>res. case res of
                 ((None, logs), g') \<Rightarrow> ((Inr (line @ [NL]), logs @ [FailedToMask line]), g')
               | ((Some masked_date, logs), g') \<Rightarrow>
                   ((Inr (join_str (CHR '','') (parts[i := masked_date]) @ [NL]), logs), g'))
    in line \<noteq> [] \<and> ci < int (length parts) \<and> py_index ci (length parts) = Some i \<longrightarrow>
       (0 < sd \<longrightarrow> process_line l ci fmt sd b r g = put (shift_date d fmt sd g)) \<and>
       (\<not> 0 < sd \<and> truthy b \<longrightarrow>
          process_line l ci fmt sd b r g = put (bucket_date d fmt (the b), g)) \<and>
       (\<not> 0 < sd \<and> \<not> truthy b \<and> r \<longrightarrow>
          process_line l ci fmt sd b r g = put (randomize_time d fmt g))"
    unfolding Let_def process_line_def mask_field_def
    by (simp split: prod.split option.split)
  show "files w inp = Some c \<and> writable w outp \<and> inp \<noteq> outp \<longrightarrow>
      (\<exists>texts gs.
         files (snd (process_data inp outp ci fmt sd b r w)) outp = Some (concat texts) \<and>
         length texts \<le> length (readlines c) \<and>
         (fst (process_data inp outp ci fmt sd b r w) = 0 \<longleftrightarrow> length texts = length (readlines c)) \<and>
         gs 0 = gen w \<and>
         (\<forall>j<length texts.
            fst (fst (process_line (readlines c ! j) ci fmt sd b r (gs j))) = Inr (texts ! j) \<and>
            snd (process_line (readlines c ! j) ci fmt sd b r (gs j)) = gs (Suc j)))"
    using process_data_texts [of w inp c outp ci fmt sd b r] by blast
  show "0 < sd \<longrightarrow>
      process_data inp outp ci fmt sd b r w = process_data inp outp ci fmt sd None False w"
    by (simp add: process_data_def Let_def process_lines_shift_any [of sd _ ci fmt b r] split: option.split)
  show "\<not> 0 < sd \<and> truthy b \<longrightarrow>
      process_data inp outp ci fmt sd b r w = process_data inp outp ci fmt sd b False w"
    by (simp add: process_data_def Let_def process_lines_bucket_any [of sd b _ ci fmt r] split: option.split)
qed


theorem strategy_precedence_witness:
  "process_line (''a, 2023-03-17 08:45:10 ,b  '' @ [NL]) 1 ''%Y-%m-%d %H:%M:%S'' 3 (Some ''week'') True (\<lambda>i. 5)
     = ((Inr (''a,2023-03-19 08:45:10,b'' @ [NL]), []), (\<lambda>i. 5)) \<and>
   process_line (''a, 2023-03-17 08:45:10 ,b  '' @ [NL]) 1 ''%Y-%m-%d %H:%M:%S'' 0 (Some ''week'') True (\<lambda>i. 5)
     = ((Inr (''a,2023-03-13 08:45:10,b'' @ [NL]), []), (\<lambda>i. 5)) \<and>
   process_line (''a, 2023-03-17 08:45:10 ,b  '' @ [NL]) 1 ''%Y-%m-%d %H:%M:%S'' 0 None True (\<lambda>i. 5)
     = ((Inr (''a,2023-03-17 05:05:05,b'' @ [NL]), []), (\<lambda>i. 5))"
  using
    strategy_precedence [where l = "''a, 2023-03-17 08:45:10 ,b  '' @ [NL]" and i = 1 and ci = 1
      and fmt = "''%Y-%m-%d %H:%M:%S''" and sd = 3 and b = "Some ''week''" and r = True
      and g = "\<lambda>i. 5"]
    strategy_precedence [where l = "''a, 2023-03-17 08:45:10 ,b  '' @ [NL]" and i = 1 and ci = 1
      and fmt = "''%Y-%m-%d %H:%M:%S''" and sd = 0 and b = "Some ''week''" and r = True
      and g = "\<lambda>i. 5"]
    strategy_precedence [where l = "''a, 2023-03-17 08:45:10 ,b  '' @ [NL]" and i = 1 and ci = 1
      and fmt = "''%Y-%m-%d %H:%M:%S''" and sd = 0 and b = None and r = True
      and g = "\<lambda>i. 5"]
  unfolding Let_def example_line(1,2)
  by (simp add: example_line(3) py_index_def example_shift example_bucket example_randomize)

section \<open>Lines passed through\<close>

text \<open>
  C3. A line with too few fields, and a line whose field does not parse, are passed on
  with a warning, but not verbatim: what is written is the stripped line. The line
  \<open>" foo "\<close> with column index 2 is written as \<open>"foo"\<close>, and the trailing blanks of
  \<open>"1,not-a-date,3  "\<close> are lost.
\<close>

theorem passthrough_is_stripped:
  "fst (process_line ('' foo '' @ [NL]) 2 ''%Y-%m-%d'' 0 (Some ''month'') False (\<lambda>i. 0))
     = (Inr (''foo'' @ [NL]), [NotEnoughColumns ''foo'']) \<and>
   fst (process_line (''1,not-a-date,3  '' @ [NL]) 1 ''%Y-%m-%d'' 0 (Some ''month'') False (\<lambda>i. 0))
     = (Inr (''1,not-a-date,3'' @ [NL]), [ParseError ''not-a-date'', FailedToMask ''1,not-a-date,3''])"
  by code_simp


section \<open>What is written for a masked line\<close>

lemma shift_date_Some:
  assumes "fst (shift_date d fmt n g) = (Some m, logs)"
  shows "logs = [] \<and> (\<exists>dt dt'. strptime d fmt = Inr dt \<and> valid_datetime dt' \<and> m = strftime dt' fmt)"
proof (cases "strptime d fmt")
  case (Inl e)
  with assms show ?thesis by (simp add: shift_date_def except_handler_def)
next
  case (Inr dt)
  obtain x g1 where r: "randint (- n) n g = (x, g1)" by (cases "randint (- n) n g")
  show ?thesis
  proof (cases x)
    case (Inl e)
    with assms Inr r show ?thesis by (simp add: shift_date_def except_handler_def)
  next
    case k: (Inr k)
    show ?thesis
    proof (cases "add_days dt k")
      case (Inl e)
      with assms Inr r k show ?thesis by (simp add: shift_date_def except_handler_def)
    next
      case a: (Inr dt')
      with assms Inr r k have "m = strftime dt' fmt" "logs = []" by (simp_all add: shift_date_def)
      with add_days_Inr(1) [OF strptime_valid [OF Inr] a] Inr show ?thesis by blast
    qed
  qed
qed

lemma bucket_date_Some:
  assumes "bucket_date d fmt iv = (Some m, logs)"
  shows "logs = [] \<and> (\<exists>dt dt'. strptime d fmt = Inr dt \<and> valid_datetime dt' \<and> m = strftime dt' fmt)"
proof (cases "strptime d fmt")
  case (Inl e)
  with assms show ?thesis by (simp add: bucket_date_def except_handler_def)
next
  case (Inr dt)
  note v = strptime_valid [OF Inr]
  consider (day) "iv = ''day''" | (week) "iv \<noteq> ''day''" "iv = ''week''"
    | (month) "iv \<noteq> ''day''" "iv \<noteq> ''week''" "iv = ''month''"
    | (other) "iv \<noteq> ''day''" "iv \<noteq> ''week''" "iv \<noteq> ''month''"
    by blast
  then show ?thesis
  proof cases
    case day
    with assms Inr have "m = strftime dt fmt" "logs = []" by (simp_all add: bucket_date_def)
    with v Inr show ?thesis by blast
  next
    case week
    show ?thesis
    proof (cases "add_days dt (- weekday dt)")
      case (Inl e)
      with assms Inr week show ?thesis by (simp add: bucket_date_def except_handler_def)
    next
      case a: (Inr dt')
      with assms Inr week have "m = strftime dt' fmt" "logs = []" by (simp_all add: bucket_date_def)
      with add_days_Inr(1) [OF v a] Inr show ?thesis by blast
    qed
  next
    case month
    from replace_day_first [OF v] assms Inr month
    have "m = strftime (dt\<lparr>day := 1\<rparr>) fmt" "logs = []" by (simp_all add: bucket_date_def)
    with replace_day_first(2) [OF v] Inr show ?thesis by blast
  next
    case other
    with assms Inr show ?thesis by (simp add: bucket_date_def)
  qed
qed

lemma randomize_time_Some:
  assumes "fst (randomize_time d fmt g) = (Some m, logs)"
  shows "logs = [] \<and> (\<exists>dt dt'. strptime d fmt = Inr dt \<and> valid_datetime dt' \<and> m = strftime dt' fmt)"
proof (cases "strptime d fmt")
  case (Inl e)
  with assms show ?thesis by (simp add: randomize_time_def except_handler_def)
next
  case (Inr dt)
  note v = strptime_valid [OF Inr]
  define dt' where "dt' = dt\<lparr>hour := int (g 0 mod 24), minute := int (g (Suc 0) mod 60),
      second := int (g (Suc (Suc 0)) mod 60)\<rparr>"
  have "g 0 mod 24 < 24" "g (Suc 0) mod 60 < 60" "g (Suc (Suc 0)) mod 60 < 60" by simp_all
  then have bnd: "int (g 0 mod 24) \<le> 23" "int (g (Suc 0) mod 60) \<le> 59"
    "int (g (Suc (Suc 0)) mod 60) \<le> 59" by linarith+
  have c: "combine_time dt (int (g 0 mod 24)) (int (g (Suc 0) mod 60)) (int (g (Suc (Suc 0)) mod 60))
      = Inr dt'"
    and v': "valid_datetime dt'"
    unfolding dt'_def using bnd by (intro combine_time_ok [OF v]; simp)+
  from assms Inr c have "m = strftime dt' fmt" "logs = []"
    by (simp_all add: randomize_time_def randint_def)
  with v' Inr show ?thesis by blast
qed

lemma mask_field_Some:
  assumes "fst (mask_field d fmt sd b r g) = (Some m, logs)"
  shows "logs = [] \<and>
         ((\<not> 0 < sd \<and> \<not> truthy b \<and> \<not> r \<and> m = d) \<or>
          (\<exists>dt dt'. strptime d fmt = Inr dt \<and> valid_datetime dt' \<and> m = strftime dt' fmt))"
proof -
  consider (s) "0 < sd" | (b) "\<not> 0 < sd" "truthy b" | (r) "\<not> 0 < sd" "\<not> truthy b" "r"
    | (n) "\<not> 0 < sd" "\<not> truthy b" "\<not> r"
    by blast
  then show ?thesis
  proof cases
    case s
    with assms have "fst (shift_date d fmt sd g) = (Some m, logs)" by (simp add: mask_field_def)
    from shift_date_Some [OF this] show ?thesis by blast
  next
    case b
    with assms have "bucket_date d fmt (the b) = (Some m, logs)" by (simp add: mask_field_def)
    from bucket_date_Some [OF this] show ?thesis by blast
  next
    case r
    with assms have "fst (randomize_time d fmt g) = (Some m, logs)" by (simp add: mask_field_def)
    from randomize_time_Some [OF this] show ?thesis by blast
  next
    case n
    with assms show ?thesis by (simp add: mask_field_def)
  qed
qed

lemma masked_text_plain:
  assumes m: "fst (mask_field d fmt sd b r g) = (Some m, logs)"
    and d: "strip d = d" "CHR '','' \<notin> set d"
  shows "strip m = m" and "CHR '','' \<notin> set m"
proof -
  from mask_field_Some [OF m] consider (same) "m = d"
    | (fmt) dt dt' where "strptime d fmt = Inr dt" "valid_datetime dt'" "m = strftime dt' fmt"
    by blast
  then have "strip m = m \<and> CHR '','' \<notin> set m"
  proof cases
    case same
    with d show ?thesis by simp
  next
    case fmt
    with strftime_trimmed [OF fmt(1) d(1) fmt(2)] strftime_no_comma [OF fmt(1) d(2) fmt(2)]
    show ?thesis by simp
  qed
  then show "strip m = m" and "CHR '','' \<notin> set m" by simp_all
qed

lemma py_index_Some: "py_index ci n = Some i \<Longrightarrow> i < n"
  by (auto simp add: py_index_def split: if_splits)

lemma comma_not_space: "\<not> is_space (CHR '','')"
  by (simp add: is_space_def)

lemma trimmed_replace:
  assumes l: "strip (pre @ x @ post) = pre @ x @ post" and m: "strip m = m"
    and pre: "pre = [] \<or> last pre = sep" and post: "post = [] \<or> hd post = sep"
    and sep: "\<not> is_space sep"
  shows "strip (pre @ m @ post) = pre @ m @ post"
proof (rule strip_fixed)
  from l have tl: "pre @ x @ post = [] \<or>
      (\<not> is_space (hd (pre @ x @ post)) \<and> \<not> is_space (last (pre @ x @ post)))"
    by (simp only: strip_fixed_iff)
  from m have tm: "m = [] \<or> (\<not> is_space (hd m) \<and> \<not> is_space (last m))"
    by (simp only: strip_fixed_iff)
  have h: "pre @ m @ post \<noteq> [] \<Longrightarrow> \<not> is_space (hd (pre @ m @ post))"
  proof (cases "pre = []")
    case False
    with tl show ?thesis by simp
  next
    case p: True
    show "pre @ m @ post \<noteq> [] \<Longrightarrow> \<not> is_space (hd (pre @ m @ post))"
    proof (cases "m = []")
      case False
      with tm p show ?thesis by simp
    next
      case True
      assume "pre @ m @ post \<noteq> []"
      with p True have "post \<noteq> []" by simp
      with post sep p True show ?thesis by auto
    qed
  qed
  have t: "pre @ m @ post \<noteq> [] \<Longrightarrow> \<not> is_space (last (pre @ m @ post))"
  proof (cases "post = []")
    case False
    with tl show ?thesis by simp
  next
    case p: True
    show "pre @ m @ post \<noteq> [] \<Longrightarrow> \<not> is_space (last (pre @ m @ post))"
    proof (cases "m = []")
      case False
      with tm p show ?thesis by simp
    next
      case True
      assume "pre @ m @ post \<noteq> []"
      with p True have "pre \<noteq> []" by simp
      with pre sep p True show ?thesis by auto
    qed
  qed
  from h t show "pre @ m @ post = [] \<or>
      (\<not> is_space (hd (pre @ m @ post)) \<and> \<not> is_space (last (pre @ m @ post)))"
    by blast
qed

lemma process_line_blank:
  "strip l = [] \<Longrightarrow> process_line l ci fmt sd b r g = ((Inr [NL], []), g)"
  by (simp add: process_line_def)

lemma process_line_Inr:
  assumes "fst (process_line l ci fmt sd b r g) = (Inr text, logs)" and ne: "strip l \<noteq> []"
  shows "(logs \<noteq> [] \<and> text = strip l @ [NL]) \<or>
         (\<exists>i m. logs = [] \<and> py_index ci (length (split_str (CHR '','') (strip l))) = Some i \<and>
            fst (mask_field (strip (split_str (CHR '','') (strip l) ! i)) fmt sd b r g) = (Some m, []) \<and>
            text = join_str (CHR '','') ((split_str (CHR '','') (strip l))[i := m]) @ [NL])"
proof -
  define parts where "parts = split_str (CHR '','') (strip l)"
  show ?thesis
  proof (cases "int (length parts) \<le> ci")
    case True
    with assms show ?thesis by (auto simp add: process_line_def Let_def parts_def [symmetric])
  next
    case short: False
    show ?thesis
    proof (cases "py_index ci (length parts)")
      case None
      with assms short show ?thesis by (simp add: process_line_def Let_def parts_def [symmetric])
    next
      case (Some i)
      obtain mo lg g1 where mf: "mask_field (strip (parts ! i)) fmt sd b r g = ((mo, lg), g1)"
        by (metis prod.collapse)
      show ?thesis
      proof (cases mo)
        case None
        with assms short Some mf show ?thesis
          by (auto simp add: process_line_def Let_def parts_def [symmetric])
      next
        case m: (Some m)
        with mf have "fst (mask_field (strip (parts ! i)) fmt sd b r g) = (Some m, lg)" by simp
        from mask_field_Some [OF this] have lg: "lg = []" by simp
        from assms short Some mf m lg
        have "logs = []" "text = join_str (CHR '','') (parts[i := m]) @ [NL]"
          by (simp_all add: process_line_def Let_def parts_def [symmetric])
        with Some mf m lg show ?thesis unfolding parts_def by auto
      qed
    qed
  qed
qed

lemma masked_line_fields:
  assumes i: "py_index ci (length (split_str (CHR '','') (strip l))) = Some i"
    and m: "fst (mask_field (strip (split_str (CHR '','') (strip l) ! i)) fmt sd b r g) = (Some m, logs)"
  shows "split_str (CHR '','') (join_str (CHR '','') ((split_str (CHR '','') (strip l))[i := m]))
           = (split_str (CHR '','') (strip l))[i := m]"
    and "strip (join_str (CHR '','') ((split_str (CHR '','') (strip l))[i := m]))
           = join_str (CHR '','') ((split_str (CHR '','') (strip l))[i := m])"
proof -
  define parts where "parts = split_str (CHR '','') (strip l)"
  define d where "d = strip (parts ! i)"
  have il: "i < length parts" using py_index_Some [OF i] by (simp add: parts_def)
  then have pin: "parts ! i \<in> set parts" by simp
  have "CHR '','' \<notin> set (parts ! i)"
    using pin unfolding parts_def by (rule split_parts_no_sep)
  with set_strip [of "parts ! i"] have dc: "CHR '','' \<notin> set d" by (auto simp add: d_def)
  have ds: "strip d = d" by (simp add: d_def strip_strip)
  from m have m': "fst (mask_field d fmt sd b r g) = (Some m, logs)" by (simp add: d_def parts_def)
  note mp = masked_text_plain [OF m' ds dc]
  have "\<forall>p\<in>set (parts[i := m]). CHR '','' \<notin> set p"
  proof
    fix p assume "p \<in> set (parts[i := m])"
    then have "p = m \<or> p \<in> set parts" using set_update_subset_insert [of parts i m] by auto
    then show "CHR '','' \<notin> set p"
      using mp(2) split_parts_no_sep [of p "CHR '',''" "strip l"] by (auto simp add: parts_def)
  qed
  moreover have "parts[i := m] \<noteq> []" using il by auto
  ultimately have "split_str (CHR '','') (join_str (CHR '','') (parts[i := m])) = parts[i := m]"
    by (intro split_join)
  then show "split_str (CHR '','') (join_str (CHR '','') ((split_str (CHR '','') (strip l))[i := m]))
           = (split_str (CHR '','') (strip l))[i := m]"
    by (simp add: parts_def)
  from join_update [OF il, of "CHR '',''"] obtain pre post where
    j: "join_str (CHR '','') parts = pre @ (parts ! i) @ post"
       "\<forall>m. join_str (CHR '','') (parts[i := m]) = pre @ m @ post"
       "pre = [] \<or> last pre = CHR '',''" "post = [] \<or> hd post = CHR '',''"
    by blast
  have "join_str (CHR '','') parts = strip l" by (simp add: parts_def join_split)
  with j(1) have e: "pre @ (parts ! i) @ post = strip l" by simp
  have "strip (pre @ (parts ! i) @ post) = pre @ (parts ! i) @ post"
    unfolding e by (rule strip_strip)
  from trimmed_replace [OF this mp(1) j(3,4) comma_not_space]
  have "strip (join_str (CHR '','') (parts[i := m])) = join_str (CHR '','') (parts[i := m])"
    using j(2) by simp
  then show "strip (join_str (CHR '','') ((split_str (CHR '','') (strip l))[i := m]))
           = join_str (CHR '','') ((split_str (CHR '','') (strip l))[i := m])"
    by (simp add: parts_def)
qed

lemma example_written:
  "strip ('' '' @ [CR, NL]) = []"
  "fst (process_line (''a, 2023-03-17 08:45:10 ,b  '' @ [CR, NL]) 1 ''%Y-%m-%d %H:%M:%S'' 0 (Some ''week'') True (\<lambda>i. 5))
     = (Inr (''a,2023-03-13 08:45:10,b'' @ [NL]), [])"
  "fst (process_line (''  1,not-a-date,3  '' @ [CR, NL]) 1 ''%Y-%m-%d %H:%M:%S'' 0 (Some ''week'') True (\<lambda>i. 5))
     = (Inr (''1,not-a-date,3'' @ [NL]), [ParseError ''not-a-date'', FailedToMask ''1,not-a-date,3''])"
  "strip (''a, 2023-03-17 08:45:10 ,b  '' @ [CR, NL]) = ''a, 2023-03-17 08:45:10 ,b''"
  by code_simp+

text \<open>
  C10. Every line is stripped before anything else. A line that is empty after
  stripping is written as a single newline, with no log record. Whatever \<open>process_line\<close>
  writes is a text followed by one newline, and that text has no whitespace at either
  end (it is its own \<open>strip\<close>); when a warning was logged (the pass-through paths) it
  is the stripped line, not the original one. The same holds for every line of the
  file that \<open>process_data\<close> writes.
\<close>

theorem written_lines_are_stripped:
  "(strip l = [] \<longrightarrow> process_line l ci fmt sd b r g = ((Inr [NL], []), g)) \<and>
   (\<forall>text logs. fst (process_line l ci fmt sd b r g) = (Inr text, logs) \<longrightarrow>
      (\<exists>body. text = body @ [NL] \<and> strip body = body \<and>
         (strip l = [] \<longrightarrow> body = []) \<and> (logs \<noteq> [] \<longrightarrow> body = strip l))) \<and>
   (files w inp = Some c \<and> writable w outp \<and> inp \<noteq> outp \<longrightarrow>
      (\<exists>texts.
         files (snd (process_data inp outp ci fmt sd b r w)) outp = Some (concat texts) \<and>
         length texts \<le> length (readlines c) \<and>
         (fst (process_data inp outp ci fmt sd b r w) = 0 \<longleftrightarrow> length texts = length (readlines c)) \<and>
         (\<forall>j<length texts.
            \<exists>body. texts ! j = body @ [NL] \<and> strip body = body \<and>
              (strip (readlines c ! j) = [] \<longrightarrow> body = []))))"
proof -
  have line: "\<exists>body. out = body @ [NL] \<and> strip body = body \<and>
         (strip l = [] \<longrightarrow> body = []) \<and> (lg \<noteq> [] \<longrightarrow> body = strip l)"
    if a: "fst (process_line l ci fmt sd b r g) = (Inr out, lg)" for l g out lg
  proof (cases "strip l = []")
    case True
    with a have "out = [] @ [NL]" by (simp add: process_line_blank)
    moreover have "strip [] = []" by (simp add: strip_def)
    ultimately show ?thesis using True by (intro exI [of _ "[]"]) simp
  next
    case False
    from process_line_Inr [OF a False] show ?thesis
    proof (elim disjE exE conjE)
      assume "lg \<noteq> []" "out = strip l @ [NL]"
      then show ?thesis using False by (intro exI [of _ "strip l"]) (simp add: strip_strip)
    next
      fix i m
      assume m: "lg = []"
        "py_index ci (length (split_str (CHR '','') (strip l))) = Some i"
        "fst (mask_field (strip (split_str (CHR '','') (strip l) ! i)) fmt sd b r g) = (Some m, [])"
        "out = join_str (CHR '','') ((split_str (CHR '','') (strip l))[i := m]) @ [NL]"
      from masked_line_fields(2) [OF m(2,3)] m(1,4) False show ?thesis
        by (intro exI [of _ "join_str (CHR '','') ((split_str (CHR '','') (strip l))[i := m])"]) simp
    qed
  qed
  have data: "\<exists>texts.
         files (snd (process_data inp outp ci fmt sd b r w)) outp = Some (concat texts) \<and>
         length texts \<le> length (readlines c) \<and>
         (fst (process_data inp outp ci fmt sd b r w) = 0 \<longleftrightarrow> length texts = length (readlines c)) \<and>
         (\<forall>j<length texts.
            \<exists>body. texts ! j = body @ [NL] \<and> strip body = body \<and>
              (strip (readlines c ! j) = [] \<longrightarrow> body = []))"
    if f: "files w inp = Some c \<and> writable w outp \<and> inp \<noteq> outp"
  proof -
    from f have f': "files w inp = Some c" "writable w outp" "inp \<noteq> outp" by simp_all
    from process_data_texts [OF f', of ci fmt sd b r] obtain texts gs where
      t: "files (snd (process_data inp outp ci fmt sd b r w)) outp = Some (concat texts) \<and>
         length texts \<le> length (readlines c) \<and>
         (fst (process_data inp outp ci fmt sd b r w) = 0 \<longleftrightarrow> length texts = length (readlines c)) \<and>
         gs 0 = gen w \<and>
         (\<forall>j<length texts.
            fst (fst (process_line (readlines c ! j) ci fmt sd b r (gs j))) = Inr (texts ! j) \<and>
            snd (process_line (readlines c ! j) ci fmt sd b r (gs j)) = gs (Suc j))"
      by (elim exE)
    have "\<forall>j<length texts.
            \<exists>body. texts ! j = body @ [NL] \<and> strip body = body \<and>
              (strip (readlines c ! j) = [] \<longrightarrow> body = [])"
    proof (intro allI impI)
      fix j assume "j < length texts"
      with t have e: "fst (fst (process_line (readlines c ! j) ci fmt sd b r (gs j))) = Inr (texts ! j)"
        by simp
      have "fst (process_line (readlines c ! j) ci fmt sd b r (gs j))
          = (Inr (texts ! j), snd (fst (process_line (readlines c ! j) ci fmt sd b r (gs j))))"
        by (subst e [symmetric]) simp
      from line [OF this] obtain body where
        "texts ! j = body @ [NL] \<and> strip body = body \<and>
           (strip (readlines c ! j) = [] \<longrightarrow> body = []) \<and>
           (snd (fst (process_line (readlines c ! j) ci fmt sd b r (gs j))) \<noteq> [] \<longrightarrow>
              body = strip (readlines c ! j))"
        by (elim exE)
      then show "\<exists>body. texts ! j = body @ [NL] \<and> strip body = body \<and>
              (strip (readlines c ! j) = [] \<longrightarrow> body = [])"
        by (intro exI [of _ body]) simp
    qed
    with t show ?thesis by (intro exI [of _ texts]) simp
  qed
  show ?thesis
  proof (intro conjI allI impI)
    assume "strip l = []"
    then show "process_line l ci fmt sd b r g = ((Inr [NL], []), g)" by (rule process_line_blank)
  next
    fix out lg
    assume "fst (process_line l ci fmt sd b r g) = (Inr out, lg)"
    then show "\<exists>body. out = body @ [NL] \<and> strip body = body \<and>
         (strip l = [] \<longrightarrow> body = []) \<and> (lg \<noteq> [] \<longrightarrow> body = strip l)"
      by (rule line)
  next
    assume "files w inp = Some c \<and> writable w outp \<and> inp \<noteq> outp"
    then show "\<exists>texts.
         files (snd (process_data inp outp ci fmt sd b r w)) outp = Some (concat texts) \<and>
         length texts \<le> length (readlines c) \<and>
         (fst (process_data inp outp ci fmt sd b r w) = 0 \<longleftrightarrow> length texts = length (readlines c)) \<and>
         (\<forall>j<length texts.
            \<exists>body. texts ! j = body @ [NL] \<and> strip body = body \<and>
              (strip (readlines c ! j) = [] \<longrightarrow> body = []))"
      by (rule data)
  qed
qed

theorem written_lines_are_stripped_witness:
  "process_line ('' '' @ [CR, NL]) 1 ''%Y-%m-%d %H:%M:%S'' 0 (Some ''week'') True (\<lambda>i. 5)
     = ((Inr [NL], []), (\<lambda>i. 5)) \<and>
   strip ''a,2023-03-13 08:45:10,b'' = ''a,2023-03-13 08:45:10,b'' \<and>
   ''1,not-a-date,3'' = strip (''  1,not-a-date,3  '' @ [CR, NL])"
  using
    written_lines_are_stripped [where l = "'' '' @ [CR, NL]" and ci = 1
      and fmt = "''%Y-%m-%d %H:%M:%S''" and sd = 0 and b = "Some ''week''" and r = True
      and g = "\<lambda>i. 5"]
    written_lines_are_stripped [where l = "''a, 2023-03-17 08:45:10 ,b  '' @ [CR, NL]" and ci = 1
      and fmt = "''%Y-%m-%d %H:%M:%S''" and sd = 0 and b = "Some ''week''" and r = True
      and g = "\<lambda>i. 5"]
    written_lines_are_stripped [where l = "''  1,not-a-date,3  '' @ [CR, NL]" and ci = 1
      and fmt = "''%Y-%m-%d %H:%M:%S''" and sd = 0 and b = "Some ''week''" and r = True
      and g = "\<lambda>i. 5"]
  unfolding example_written
  by auto



section \<open>The command line\<close>

text \<open>
  C1. With both \<open>--shift_days 5\<close> and \<open>--bucket_interval day\<close> on the command line the
  claim expects exit status 1 before any file is opened. The process does end before any
  file is opened (the files are untouched and the trace holds no open, only the message
  on standard error), but \<open>parser.error\<close> ends it with status 2: the \<open>sys.exit(1)\<close>
  written after it is never reached.
\<close>

theorem main_exclusive_options_status:
  "main \<lparr>arg_shift_days = 5, arg_bucket_interval = Some ''day'',
          arg_input_file = Some ''in.csv'', arg_output_file = Some ''out.csv'',
          arg_date_format = ''%Y-%m-%d'', arg_column_index = 0, arg_randomize_time = False\<rparr>
        \<lparr>files = [''in.csv'' \<mapsto> ''2023-01-15''], writable = (\<lambda>p. True), gen = (\<lambda>i. 0), trace = []\<rparr>
   = Exited 2
       \<lparr>files = [''in.csv'' \<mapsto> ''2023-01-15''], writable = (\<lambda>p. True), gen = (\<lambda>i. 0),
        trace = [Stderr ''--shift_days and --bucket_interval are mutually exclusive. Choose only one.'']\<rparr>"
  by (simp add: main_def parser_error_def sys_exit_def emit_def)

end
